theory Spec2Isabelle
  imports Main
begin

section \<open>The orchestration engine of bolt.echo\<close>

text \<open>
  A shallow embedding of \<^verbatim>\<open>app/lib/.server/llm/orchestration-engine.ts\<close>: the data
  model, \<^verbatim>\<open>createWorkflow\<close>, \<^verbatim>\<open>executeTask\<close>, \<^verbatim>\<open>executeHybridWorkflow\<close> and
  \<^verbatim>\<open>executeWorkflow\<close>.

  Conventions of the embedding.
  \<^item> Objects that the engine mutates in place are passed and returned explicitly. The
    task objects of a workflow live in the list \<open>tasks\<close>; a reference to a task object
    (an element of \<^verbatim>\<open>remainingTasks\<close>, \<^verbatim>\<open>readyTasks\<close> or \<^verbatim>\<open>batch\<close>) is its index in
    that list, so that a write through a reference is visible in \<^verbatim>\<open>workflow.tasks\<close>.
  \<^item> \<^verbatim>\<open>Date.now()\<close> is a clock: the reading of its \<open>n\<close>-th call is \<open>clock n\<close>, and the
    engine counts the calls in \<open>ticks\<close>.
  \<^item> \<^verbatim>\<open>Math.random().toString(36).substr(2, 9)\<close> is an argument \<open>rnd\<close>.
  \<^item> A value of type \<^verbatim>\<open>any\<close> is a JSON-like tree.
  \<^item> The invocation \<^verbatim>\<open>this.simulateTaskExecution(task, agent)\<close> is an argument
    \<open>invoke\<close> of the functions that reach it, so that both branches of the
    \<^verbatim>\<open>try/catch\<close> around it are modelled; \<open>simulateTaskExecution\<close> below is the
    function the repository passes.
  \<^item> An \<^verbatim>\<open>async\<close> function runs synchronously up to its first \<^verbatim>\<open>await\<close>; the
    continuations of a batch run afterwards in the order of the batch.
  \<^item> The conversations and the task queue of the engine are not used by the functions
    embedded here and are left out.
\<close>

subsection \<open>Data model\<close>

datatype any =
    JNull
  | JString string
  | JNumber int
  | JError string
  | JObject "(string \<times> any) list"

datatype agent_type = Reflective | Orchestrator | Specialist | Synthesizer

datatype task_type = Generate | Analyze | Refactor | Debug | Explain | Synthesize

datatype priority = Low | Medium | High | Critical

datatype task_status = Pending | InProgress | Completed | Failed

datatype execution_mode = Sequential | Parallel | Hybrid

datatype workflow_status = Initialized | Running | WorkflowCompleted | WorkflowFailed

record metrics =
  tasksCompleted :: nat
  averageQuality :: int
  averageLatency :: int

record OrchestrationAgent =
  agent_id :: string
  agent_name :: string
  agent_type :: agent_type
  agent_domain :: "string option"
  models :: "string list"
  tools :: "string list option"
  capabilities :: "string list"
  memoryContext :: "(string \<times> any) list"
  performanceMetrics :: metrics

record OrchestrationTask =
  task_id :: string
  task_type :: task_type
  description :: string
  priority :: priority
  dependencies :: "string list"
  assignedAgent :: "string option"
  status :: task_status
  result :: "any option"
  startTime :: "int option"
  endTime :: "int option"

record rules =
  maxParallelTasks :: int
  retryOnFailure :: bool
  synthesisRequired :: bool

record OrchestrationWorkflow =
  wf_id :: string
  wf_name :: string
  wf_description :: string
  tasks :: "OrchestrationTask list"
  executionMode :: execution_mode
  coordinationRules :: rules
  wf_status :: workflow_status
  wf_startTime :: "int option"
  wf_endTime :: "int option"

record engine =
  agents :: "string \<rightharpoonup> OrchestrationAgent"
  workflows :: "string \<rightharpoonup> OrchestrationWorkflow"
  ticks :: nat

type_synonym clock = "nat \<Rightarrow> int"

text \<open>What \<^verbatim>\<open>executeTask\<close> resolves with.\<close>

record task_result =
  success :: bool
  res_value :: any
  res_agent :: string
  executionTime :: int

text \<open>The outcome of awaiting the invocation of a task: it returns a value or throws.\<close>

datatype invocation = Returns any | Throws any

type_synonym invoker = "int \<Rightarrow> OrchestrationTask \<Rightarrow> OrchestrationAgent \<Rightarrow> invocation"

text \<open>An element of the array \<^verbatim>\<open>Promise.allSettled\<close> resolves with.\<close>

datatype 'a settled = Fulfilled 'a | Rejected any

subsection \<open>Template strings\<close>

definition digit_char :: "nat \<Rightarrow> char" where
  "digit_char d = ''0123456789'' ! d"

text \<open>The decimal numeral of a number, as a template string prints it.\<close>

fun decimal_onto :: "nat \<Rightarrow> string \<Rightarrow> string" where
  "decimal_onto n acc =
     (if n < 10 then digit_char n # acc
      else decimal_onto (n div 10) (digit_char (n mod 10) # acc))"

definition decimal :: "nat \<Rightarrow> string" where
  "decimal n = decimal_onto n []"

definition decimal_int :: "int \<Rightarrow> string" where
  "decimal_int i = (if 0 \<le> i then decimal (nat i) else CHR ''-'' # decimal (nat (- i)))"

definition string_of_task_type :: "task_type \<Rightarrow> string" where
  "string_of_task_type t =
     (case t of Generate \<Rightarrow> ''generate'' | Analyze \<Rightarrow> ''analyze'' | Refactor \<Rightarrow> ''refactor''
      | Debug \<Rightarrow> ''debug'' | Explain \<Rightarrow> ''explain'' | Synthesize \<Rightarrow> ''synthesize'')"

subsection \<open>Array operations\<close>

text \<open>\<^verbatim>\<open>xs.slice(0, e)\<close> for an integer \<open>e\<close>: a negative end counts from the end of the array.\<close>

definition slice0 :: "'a list \<Rightarrow> int \<Rightarrow> 'a list" where
  "slice0 xs e = (if e < 0 then take (nat (int (length xs) + e)) xs else take (nat e) xs)"

fun findIndex :: "('a \<Rightarrow> bool) \<Rightarrow> 'a list \<Rightarrow> nat option" where
  "findIndex P [] = None"
| "findIndex P (x # xs) = (if P x then Some 0 else map_option Suc (findIndex P xs))"

text \<open>\<^verbatim>\<open>xs.splice(k, 1)\<close>.\<close>

definition splice1 :: "nat \<Rightarrow> 'a list \<Rightarrow> 'a list" where
  "splice1 k xs = take k xs @ drop (Suc k) xs"

subsection \<open>Agents\<close>

definition registerAgent :: "OrchestrationAgent \<Rightarrow> engine \<Rightarrow> engine" where
  "registerAgent agent e = e\<lparr>agents := (agents e)(agent_id agent \<mapsto> agent)\<rparr>"

definition zero_metrics :: metrics where
  "zero_metrics = \<lparr>tasksCompleted = 0, averageQuality = 0, averageLatency = 0\<rparr>"

definition initializeDefaultAgents :: "engine \<Rightarrow> engine" where
  "initializeDefaultAgents e =
     registerAgent
       \<lparr>agent_id = ''synthesizer-main'', agent_name = ''Knowledge Synthesizer'',
        agent_type = Synthesizer, agent_domain = None,
        models = [''claude-3-5-sonnet-20241022''], tools = None,
        capabilities = [''information_integration'', ''pattern_synthesis'',
          ''insight_generation'', ''coherence_checking''],
        memoryContext = [], performanceMetrics = zero_metrics\<rparr>
    (registerAgent
       \<lparr>agent_id = ''reflective-analyst'', agent_name = ''Reflective Analyst'',
        agent_type = Reflective, agent_domain = Some ''analysis'',
        models = [''claude-3-5-sonnet-20241022''], tools = None,
        capabilities = [''performance_analysis'', ''quality_assessment'',
          ''improvement_suggestions'', ''meta_cognition''],
        memoryContext = [], performanceMetrics = zero_metrics\<rparr>
    (registerAgent
       \<lparr>agent_id = ''specialist-architecture'', agent_name = ''Architecture Specialist'',
        agent_type = Specialist, agent_domain = Some ''architecture'',
        models = [''claude-3-5-sonnet-20241022''], tools = None,
        capabilities = [''system_design'', ''pattern_recognition'', ''optimization'',
          ''scalability_analysis''],
        memoryContext = [], performanceMetrics = zero_metrics\<rparr>
    (registerAgent
       \<lparr>agent_id = ''specialist-code'', agent_name = ''Code Specialist'',
        agent_type = Specialist, agent_domain = Some ''coding'',
        models = [''claude-3-5-sonnet-20241022''], tools = None,
        capabilities = [''code_generation'', ''code_analysis'', ''refactoring'', ''debugging''],
        memoryContext = [], performanceMetrics = zero_metrics\<rparr>
    (registerAgent
       \<lparr>agent_id = ''orchestrator-main'', agent_name = ''Deep Tree Echo Orchestrator'',
        agent_type = Orchestrator, agent_domain = None,
        models = [''claude-3-5-sonnet-20241022''], tools = None,
        capabilities = [''task_decomposition'', ''agent_coordination'',
          ''workflow_management'', ''synthesis''],
        memoryContext = [], performanceMetrics = zero_metrics\<rparr> e))))"

text \<open>The constructor of \<^verbatim>\<open>OrchestrationEngine\<close>.\<close>

definition new_engine :: engine where
  "new_engine = initializeDefaultAgents \<lparr>agents = Map.empty, workflows = Map.empty, ticks = 0\<rparr>"

fun selectAgentForTask :: "OrchestrationTask \<Rightarrow> string" where
  "selectAgentForTask task =
     (case task_type task of
        Generate \<Rightarrow> ''specialist-code''
      | Refactor \<Rightarrow> ''specialist-code''
      | Debug \<Rightarrow> ''specialist-code''
      | Analyze \<Rightarrow> ''specialist-architecture''
      | Synthesize \<Rightarrow> ''synthesizer-main''
      | Explain \<Rightarrow> ''orchestrator-main'')"

text \<open>
  \<^verbatim>\<open>simulateTaskExecution\<close>: it reads the clock once (\<open>now\<close>) and returns a record of the
  task; it has no path that throws.
\<close>

definition simulateTaskExecution :: invoker where
  "simulateTaskExecution now task agent =
     Returns (JObject
       [(''taskId'', JString (task_id task)),
        (''agentId'', JString (agent_id agent)),
        (''type'', JString (string_of_task_type (task_type task))),
        (''description'', JString (description task)),
        (''status'', JString ''completed''),
        (''timestamp'', JNumber now)])"

subsection \<open>createWorkflow\<close>

definition newWorkflowId :: "int \<Rightarrow> string \<Rightarrow> string" where
  "newWorkflowId now rnd = ''workflow-'' @ decimal_int now @ ''-'' @ rnd"

definition newTaskId :: "string \<Rightarrow> nat \<Rightarrow> string" where
  "newTaskId workflowId index = workflowId @ ''-task-'' @ decimal index"

text \<open>
  The input tasks are typed \<^verbatim>\<open>Omit<OrchestrationTask, 'id' | 'status'>\<close>, but the objects
  that \<^verbatim>\<open>decomposeRequest\<close> passes carry both fields, and the spread \<^verbatim>\<open>...task\<close> copies
  every field before \<^verbatim>\<open>id\<close> and \<^verbatim>\<open>status\<close> are overwritten: an input task is an
  \<open>OrchestrationTask\<close>. The parameter \<open>mode\<close> is \<^verbatim>\<open>executionMode\<close>, whose default
  \<^verbatim>\<open>'hybrid'\<close> the caller writes out.
\<close>

definition createWorkflow ::
  "clock \<Rightarrow> string \<Rightarrow> string \<Rightarrow> string \<Rightarrow> OrchestrationTask list \<Rightarrow> execution_mode \<Rightarrow> engine
     \<Rightarrow> OrchestrationWorkflow \<times> engine" where
  "createWorkflow clock rnd name descr ts mode e =
     (let workflowId = newWorkflowId (clock (ticks e)) rnd;
          e1 = e\<lparr>ticks := Suc (ticks e)\<rparr>;
          workflow =
            \<lparr>wf_id = workflowId, wf_name = name, wf_description = descr,
             tasks = map (\<lambda>(index, task). task\<lparr>task_id := newTaskId workflowId index, status := Pending\<rparr>)
                       (enumerate 0 ts),
             executionMode = mode,
             coordinationRules =
               \<lparr>maxParallelTasks = (if mode = Parallel then int (length ts) else 3),
                retryOnFailure = True, synthesisRequired = True\<rparr>,
             wf_status = Initialized, wf_startTime = None, wf_endTime = None\<rparr>
      in (workflow, e1\<lparr>workflows := (workflows e1)(workflowId \<mapsto> workflow)\<rparr>))"

subsection \<open>executeTask\<close>

text \<open>
  What \<^verbatim>\<open>executeTask\<close> has done when it first gives up control: it has resolved (the
  agent is not registered), or it awaits the invocation it started with the agent found
  under \<open>key\<close>.
\<close>

datatype suspended = Resolved task_result | Awaiting string OrchestrationAgent invocation

text \<open>
  The agent a task runs on: \<^verbatim>\<open>task.assignedAgent\<close>, or the agent selected for it when
  that field is falsy (absent, or the empty string).
\<close>

definition agentFor :: "OrchestrationTask \<Rightarrow> string" where
  "agentFor task =
     (case assignedAgent task of
        None \<Rightarrow> selectAgentForTask task
      | Some a \<Rightarrow> if a = [] then selectAgentForTask task else a)"

text \<open>The synchronous part of \<^verbatim>\<open>executeTask\<close>, up to the \<^verbatim>\<open>await\<close>.\<close>

definition executeTask_begin ::
  "clock \<Rightarrow> invoker \<Rightarrow> OrchestrationTask \<Rightarrow> engine \<Rightarrow> suspended \<times> OrchestrationTask \<times> engine" where
  "executeTask_begin clock invoke task e =
     (let task1 = task\<lparr>status := InProgress, startTime := Some (clock (ticks e))\<rparr>;
          e1 = e\<lparr>ticks := Suc (ticks e)\<rparr>;
          key = agentFor task1;
          task2 = task1\<lparr>assignedAgent := Some key\<rparr>
      in case agents e1 key of
           None \<Rightarrow>
             (Resolved \<lparr>success = False, res_value = JNull, res_agent = key, executionTime = 0\<rparr>,
              task2\<lparr>status := Failed\<rparr>, e1)
         | Some agent \<Rightarrow>
             (Awaiting key agent (invoke (clock (ticks e1)) task2 agent), task2,
              e1\<lparr>ticks := Suc (ticks e1)\<rparr>))"

text \<open>
  \<^verbatim>\<open>task.endTime - task.startTime\<close>; \<^verbatim>\<open>startTime\<close> was set by the synchronous part.
\<close>

definition elapsed :: "int \<Rightarrow> OrchestrationTask \<Rightarrow> int" where
  "elapsed now task = (case startTime task of Some st \<Rightarrow> now - st | None \<Rightarrow> now)"

definition bump :: "OrchestrationAgent \<Rightarrow> OrchestrationAgent" where
  "bump agent =
     agent\<lparr>performanceMetrics :=
       (performanceMetrics agent)\<lparr>tasksCompleted := Suc (tasksCompleted (performanceMetrics agent))\<rparr>\<rparr>"

text \<open>
  The continuation of \<^verbatim>\<open>executeTask\<close> after the \<^verbatim>\<open>await\<close>: the body of the \<^verbatim>\<open>try\<close>
  when the invocation returned, the \<^verbatim>\<open>catch\<close> when it threw. The agent object is the one
  registered under \<open>key\<close>.
\<close>

definition executeTask_resume ::
  "clock \<Rightarrow> string \<Rightarrow> OrchestrationAgent \<Rightarrow> invocation \<Rightarrow> OrchestrationTask \<Rightarrow> engine
     \<Rightarrow> task_result \<times> OrchestrationTask \<times> engine" where
  "executeTask_resume clock key agent outcome task e =
     (let now = clock (ticks e);
          e1 = e\<lparr>ticks := Suc (ticks e)\<rparr>
      in case outcome of
           Returns r \<Rightarrow>
             (\<lparr>success = True, res_value = r, res_agent = agent_id agent,
               executionTime = elapsed now task\<rparr>,
              task\<lparr>status := Completed, endTime := Some now, result := Some r\<rparr>,
              e1\<lparr>agents := (agents e1)(key := map_option bump (agents e1 key))\<rparr>)
         | Throws x \<Rightarrow>
             (\<lparr>success = False, res_value = x, res_agent = agent_id agent,
               executionTime = elapsed now task\<rparr>,
              task\<lparr>status := Failed, endTime := Some now\<rparr>, e1))"

text \<open>
  \<^verbatim>\<open>await this.executeTask(task)\<close>: the promise and the task and engine it leaves. Every
  \<^verbatim>\<open>return\<close> of the source fulfils the promise, and the source has no \<^verbatim>\<open>throw\<close> outside
  its \<^verbatim>\<open>try\<close>.
\<close>

definition executeTask ::
  "clock \<Rightarrow> invoker \<Rightarrow> OrchestrationTask \<Rightarrow> engine
     \<Rightarrow> task_result settled \<times> OrchestrationTask \<times> engine" where
  "executeTask clock invoke task e =
     (case executeTask_begin clock invoke task e of
        (Resolved r, task1, e1) \<Rightarrow> (Fulfilled r, task1, e1)
      | (Awaiting key agent outcome, task1, e1) \<Rightarrow>
          (case executeTask_resume clock key agent outcome task1 e1 of
             (r, task2, e2) \<Rightarrow> (Fulfilled r, task2, e2)))"

text \<open>
  \<^verbatim>\<open>batch.map(task => this.executeTask(task))\<close>: the synchronous parts run one after the
  other, each on the task object its reference \<open>i\<close> points to.
\<close>

fun begin_all ::
  "clock \<Rightarrow> invoker \<Rightarrow> nat list \<Rightarrow> OrchestrationTask list \<Rightarrow> engine
     \<Rightarrow> suspended list \<times> OrchestrationTask list \<times> engine" where
  "begin_all clock invoke [] ts e = ([], ts, e)"
| "begin_all clock invoke (i # refs) ts e =
     (case executeTask_begin clock invoke (ts ! i) e of
        (p, task1, e1) \<Rightarrow>
          (case begin_all clock invoke refs (ts[i := task1]) e1 of
             (ps, ts1, e2) \<Rightarrow> (p # ps, ts1, e2)))"

text \<open>
  \<^verbatim>\<open>await Promise.allSettled(promises)\<close>: the continuations run in the order of the batch,
  and the array of outcomes is in that order too.
\<close>

fun settle_all ::
  "clock \<Rightarrow> (nat \<times> suspended) list \<Rightarrow> OrchestrationTask list \<Rightarrow> engine
     \<Rightarrow> task_result settled list \<times> OrchestrationTask list \<times> engine" where
  "settle_all clock [] ts e = ([], ts, e)"
| "settle_all clock ((i, Resolved r) # ps) ts e =
     (case settle_all clock ps ts e of (rs, ts1, e1) \<Rightarrow> (Fulfilled r # rs, ts1, e1))"
| "settle_all clock ((i, Awaiting key agent outcome) # ps) ts e =
     (case executeTask_resume clock key agent outcome (ts ! i) e of
        (r, task1, e1) \<Rightarrow>
          (case settle_all clock ps (ts[i := task1]) e1 of
             (rs, ts1, e2) \<Rightarrow> (Fulfilled r # rs, ts1, e2)))"

definition run_batch ::
  "clock \<Rightarrow> invoker \<Rightarrow> nat list \<Rightarrow> OrchestrationTask list \<Rightarrow> engine
     \<Rightarrow> task_result settled list \<times> OrchestrationTask list \<times> engine" where
  "run_batch clock invoke batch ts e =
     (case begin_all clock invoke batch ts e of
        (ps, ts1, e1) \<Rightarrow> settle_all clock (zip batch ps) ts1 e1)"

subsection \<open>executeHybridWorkflow\<close>

record hybrid_state =
  h_tasks :: "OrchestrationTask list"
  h_engine :: engine
  h_results :: "task_result list"
  completedTasks :: "string set"
  remainingTasks :: "nat list"

definition hybrid_init :: "OrchestrationWorkflow \<Rightarrow> engine \<Rightarrow> hybrid_state" where
  "hybrid_init workflow e =
     \<lparr>h_tasks = tasks workflow, h_engine = e, h_results = [], completedTasks = {},
      remainingTasks = [0..<length (tasks workflow)]\<rparr>"

definition readyTasks :: "hybrid_state \<Rightarrow> nat list" where
  "readyTasks s =
     filter (\<lambda>r. list_all (\<lambda>depId. depId \<in> completedTasks s) (dependencies (h_tasks s ! r)))
       (remainingTasks s)"

definition next_batch :: "int \<Rightarrow> hybrid_state \<Rightarrow> nat list" where
  "next_batch maxp s = slice0 (readyTasks s) maxp"

text \<open>The \<^verbatim>\<open>forEach\<close> over \<^verbatim>\<open>batchResults\<close>; \<open>i\<close> is \<^verbatim>\<open>batch[index]\<close>.\<close>

fun collect_batch :: "(nat \<times> task_result settled) list \<Rightarrow> hybrid_state \<Rightarrow> hybrid_state" where
  "collect_batch [] s = s"
| "collect_batch ((i, res) # rest) s =
     (let task = h_tasks s ! i;
          s1 = (case res of
                  Fulfilled v \<Rightarrow>
                    s\<lparr>h_results := h_results s @ [v],
                      completedTasks := insert (task_id task) (completedTasks s)\<rparr>
                | Rejected x \<Rightarrow> s);
          s2 = (case findIndex (\<lambda>r. task_id (h_tasks s1 ! r) = task_id task) (remainingTasks s1) of
                  None \<Rightarrow> s1
                | Some k \<Rightarrow> s1\<lparr>remainingTasks := splice1 k (remainingTasks s1)\<rparr>)
      in collect_batch rest s2)"

text \<open>One iteration of the \<^verbatim>\<open>while\<close> loop that dispatches a batch.\<close>

definition hybrid_round :: "clock \<Rightarrow> invoker \<Rightarrow> int \<Rightarrow> hybrid_state \<Rightarrow> hybrid_state" where
  "hybrid_round clock invoke maxp s =
     (let batch = next_batch maxp s
      in case run_batch clock invoke batch (h_tasks s) (h_engine s) of
           (batchResults, ts1, e1) \<Rightarrow>
             collect_batch (zip batch batchResults) (s\<lparr>h_tasks := ts1, h_engine := e1\<rparr>))"

text \<open>The loop leaves when no task remains, or at the \<^verbatim>\<open>break\<close> when none is ready.\<close>

definition hybrid_done :: "hybrid_state \<Rightarrow> bool" where
  "hybrid_done s \<longleftrightarrow> remainingTasks s = [] \<or> readyTasks s = []"

text \<open>
  The \<^verbatim>\<open>while\<close> loop. Each iteration that dispatches a batch uses one unit of \<open>fuel\<close>;
  \<open>None\<close> is a loop that has not left after \<open>fuel\<close> iterations.
\<close>

fun hybrid_loop :: "clock \<Rightarrow> invoker \<Rightarrow> int \<Rightarrow> nat \<Rightarrow> hybrid_state \<Rightarrow> hybrid_state option" where
  "hybrid_loop clock invoke maxp 0 s = (if hybrid_done s then Some s else None)"
| "hybrid_loop clock invoke maxp (Suc fuel) s =
     (if hybrid_done s then Some s
      else hybrid_loop clock invoke maxp fuel (hybrid_round clock invoke maxp s))"

definition executeHybridWorkflow ::
  "clock \<Rightarrow> invoker \<Rightarrow> nat \<Rightarrow> OrchestrationWorkflow \<Rightarrow> engine \<Rightarrow> hybrid_state option" where
  "executeHybridWorkflow clock invoke fuel workflow e =
     hybrid_loop clock invoke (maxParallelTasks (coordinationRules workflow)) fuel
       (hybrid_init workflow e)"

subsection \<open>executeWorkflow\<close>

text \<open>The local variables of \<^verbatim>\<open>executeWorkflow\<close>, with the task objects and the engine.\<close>

record run_state =
  r_tasks :: "OrchestrationTask list"
  r_engine :: engine
  r_results :: "task_result list"
  r_completed :: nat
  r_failed :: nat

record workflow_metrics =
  totalTime :: int
  m_tasksCompleted :: nat
  m_tasksFailed :: nat

record workflow_result =
  wr_success :: bool
  wr_results :: "task_result list"
  wr_metrics :: workflow_metrics

text \<open>
  The body of the \<^verbatim>\<open>try\<close> ends normally (\<open>Inr\<close>) or with a thrown value (\<open>Inl\<close>) and the
  state at the throw. An awaited promise that is rejected throws.
\<close>

type_synonym try_outcome = "(any \<times> run_state) + run_state"

text \<open>Sequential mode: \<^verbatim>\<open>for (const task of workflow.tasks)\<close>.\<close>

fun run_sequential :: "clock \<Rightarrow> invoker \<Rightarrow> bool \<Rightarrow> nat list \<Rightarrow> run_state \<Rightarrow> try_outcome" where
  "run_sequential clock invoke retry [] s = Inr s"
| "run_sequential clock invoke retry (i # refs) s =
     (case executeTask clock invoke (r_tasks s ! i) (r_engine s) of
        (Rejected x, task1, e1) \<Rightarrow>
          Inl (x, s\<lparr>r_tasks := (r_tasks s)[i := task1], r_engine := e1\<rparr>)
      | (Fulfilled res, task1, e1) \<Rightarrow>
          (let s1 = s\<lparr>r_tasks := (r_tasks s)[i := task1], r_engine := e1,
                      r_results := r_results s @ [res]\<rparr>
           in if success res
              then run_sequential clock invoke retry refs (s1\<lparr>r_completed := Suc (r_completed s1)\<rparr>)
              else (let s2 = s1\<lparr>r_failed := Suc (r_failed s1)\<rparr>
                    in if \<not> retry then Inr s2
                       else run_sequential clock invoke retry refs s2)))"

text \<open>Parallel mode: the \<^verbatim>\<open>forEach\<close> over \<^verbatim>\<open>taskResults\<close>.\<close>

fun tally :: "task_result settled list \<Rightarrow> run_state \<Rightarrow> run_state" where
  "tally [] s = s"
| "tally (Fulfilled v # rs) s =
     tally rs (s\<lparr>r_results := r_results s @ [v], r_completed := Suc (r_completed s)\<rparr>)"
| "tally (Rejected x # rs) s = tally rs (s\<lparr>r_failed := Suc (r_failed s)\<rparr>)"

definition run_parallel :: "clock \<Rightarrow> invoker \<Rightarrow> run_state \<Rightarrow> run_state" where
  "run_parallel clock invoke s =
     (case run_batch clock invoke [0..<length (r_tasks s)] (r_tasks s) (r_engine s) of
        (taskResults, ts1, e1) \<Rightarrow> tally taskResults (s\<lparr>r_tasks := ts1, r_engine := e1\<rparr>))"

text \<open>Hybrid mode: the counts are read off the task objects after the loop.\<close>

definition run_hybrid ::
  "clock \<Rightarrow> invoker \<Rightarrow> nat \<Rightarrow> OrchestrationWorkflow \<Rightarrow> run_state \<Rightarrow> run_state option" where
  "run_hybrid clock invoke fuel workflow s =
     map_option
       (\<lambda>h. s\<lparr>r_tasks := h_tasks h, r_engine := h_engine h,
               r_results := r_results s @ h_results h,
               r_completed := length (filter (\<lambda>t. status t = Completed) (h_tasks h)),
               r_failed := length (filter (\<lambda>t. status t = Failed) (h_tasks h))\<rparr>)
       (executeHybridWorkflow clock invoke fuel (workflow\<lparr>tasks := r_tasks s\<rparr>) (r_engine s))"

definition run_mode ::
  "clock \<Rightarrow> invoker \<Rightarrow> nat \<Rightarrow> OrchestrationWorkflow \<Rightarrow> run_state \<Rightarrow> try_outcome option" where
  "run_mode clock invoke fuel workflow s =
     (case executionMode workflow of
        Sequential \<Rightarrow>
          Some (run_sequential clock invoke (retryOnFailure (coordinationRules workflow))
                  [0..<length (r_tasks s)] s)
      | Parallel \<Rightarrow> Some (Inr (run_parallel clock invoke s))
      | Hybrid \<Rightarrow> map_option Inr (run_hybrid clock invoke fuel workflow s))"

definition synthesisTask :: "string \<Rightarrow> OrchestrationTask list \<Rightarrow> OrchestrationTask" where
  "synthesisTask workflowId ts =
     \<lparr>task_id = workflowId @ ''-synthesis'', task_type = Synthesize,
      description = ''Synthesize workflow results'', priority = High,
      dependencies = map task_id ts, assignedAgent = Some ''synthesizer-main'',
      status = Pending, result = None, startTime = None, endTime = None\<rparr>"

text \<open>The synthesis step; the synthesis task is not one of \<^verbatim>\<open>workflow.tasks\<close>.\<close>

definition run_synthesis ::
  "clock \<Rightarrow> invoker \<Rightarrow> string \<Rightarrow> OrchestrationWorkflow \<Rightarrow> run_state \<Rightarrow> try_outcome" where
  "run_synthesis clock invoke workflowId workflow s =
     (if synthesisRequired (coordinationRules workflow) \<and> length (r_results s) > 1
      then (case executeTask clock invoke (synthesisTask workflowId (r_tasks s)) (r_engine s) of
              (Rejected x, task1, e1) \<Rightarrow> Inl (x, s\<lparr>r_engine := e1\<rparr>)
            | (Fulfilled synthesisResult, task1, e1) \<Rightarrow>
                Inr (s\<lparr>r_engine := e1, r_results := r_results s @ [synthesisResult]\<rparr>))
      else Inr s)"

text \<open>The end of \<^verbatim>\<open>executeWorkflow\<close>: the \<^verbatim>\<open>return\<close> of the \<^verbatim>\<open>try\<close>, or its \<^verbatim>\<open>catch\<close>.\<close>

definition finish_workflow ::
  "clock \<Rightarrow> string \<Rightarrow> OrchestrationWorkflow \<Rightarrow> try_outcome \<Rightarrow> (any + workflow_result) \<times> engine" where
  "finish_workflow clock workflowId workflow outcome =
     (case outcome of
        Inr s \<Rightarrow>
          (let e = r_engine s;
               now = clock (ticks e);
               wf1 = workflow\<lparr>tasks := r_tasks s, wf_status := WorkflowCompleted,
                               wf_endTime := Some now\<rparr>
           in (Inr \<lparr>wr_success = (r_failed s = 0), wr_results = r_results s,
                    wr_metrics =
                      \<lparr>totalTime = (case wf_startTime workflow of Some st \<Rightarrow> now - st | None \<Rightarrow> now),
                       m_tasksCompleted = r_completed s, m_tasksFailed = r_failed s\<rparr>\<rparr>,
               e\<lparr>ticks := Suc (ticks e), workflows := (workflows e)(workflowId \<mapsto> wf1)\<rparr>))
      | Inl (x, s) \<Rightarrow>
          (let e = r_engine s;
               now = clock (ticks e);
               wf1 = workflow\<lparr>tasks := r_tasks s, wf_status := WorkflowFailed,
                               wf_endTime := Some now\<rparr>
           in (Inl x, e\<lparr>ticks := Suc (ticks e), workflows := (workflows e)(workflowId \<mapsto> wf1)\<rparr>)))"

text \<open>
  \<^verbatim>\<open>executeWorkflow\<close>. \<open>Inl\<close> is the value it throws; \<open>None\<close> is a hybrid loop that has
  not left after \<open>fuel\<close> iterations.
\<close>

definition executeWorkflow ::
  "clock \<Rightarrow> invoker \<Rightarrow> nat \<Rightarrow> string \<Rightarrow> engine \<Rightarrow> ((any + workflow_result) \<times> engine) option" where
  "executeWorkflow clock invoke fuel workflowId e =
     (case workflows e workflowId of
        None \<Rightarrow> Some (Inl (JError (''Workflow '' @ workflowId @ '' not found'')), e)
      | Some workflow \<Rightarrow>
          (let wf1 = workflow\<lparr>wf_status := Running, wf_startTime := Some (clock (ticks e))\<rparr>;
               e1 = e\<lparr>ticks := Suc (ticks e)\<rparr>;
               s0 = \<lparr>r_tasks = tasks wf1, r_engine = e1, r_results = [],
                     r_completed = 0, r_failed = 0\<rparr>
           in case run_mode clock invoke fuel wf1 s0 of
                None \<Rightarrow> None
              | Some (Inl thrown) \<Rightarrow> Some (finish_workflow clock workflowId wf1 (Inl thrown))
              | Some (Inr s1) \<Rightarrow>
                  Some (finish_workflow clock workflowId wf1
                          (run_synthesis clock invoke workflowId wf1 s1))))"


text \<open>The state at the head of the loop after \<open>n\<close> iterations (or after the last one).\<close>

fun hybrid_steps :: "clock \<Rightarrow> invoker \<Rightarrow> int \<Rightarrow> nat \<Rightarrow> hybrid_state \<Rightarrow> hybrid_state" where
  "hybrid_steps clock invoke maxp 0 s = s"
| "hybrid_steps clock invoke maxp (Suc n) s =
     (if hybrid_done s then s
      else hybrid_steps clock invoke maxp n (hybrid_round clock invoke maxp s))"

subsection \<open>Notions used in the statements and proofs\<close>

text \<open>The status a task of a batch has once the batch has settled.\<close>

definition final_status :: "suspended \<Rightarrow> task_status" where
  "final_status p =
     (case p of Resolved r \<Rightarrow> Failed
      | Awaiting k a out \<Rightarrow> (case out of Returns v \<Rightarrow> Completed | Throws x \<Rightarrow> Failed))"

text \<open>What \<^verbatim>\<open>findIndex\<close> followed by \<^verbatim>\<open>splice\<close> does to an array.\<close>

fun remove_first :: "('a \<Rightarrow> bool) \<Rightarrow> 'a list \<Rightarrow> 'a list" where
  "remove_first P [] = []"
| "remove_first P (x # xs) = (if P x then xs else x # remove_first P xs)"


text \<open>What a run of \<open>executeWorkflow\<close> leaves: the value it returns, and a stored workflow.\<close>

definition returned :: "((any + workflow_result) \<times> engine) option \<Rightarrow> workflow_result option" where
  "returned out = (case out of Some (Inr res, e) \<Rightarrow> Some res | _ \<Rightarrow> None)"

definition stored :: "((any + workflow_result) \<times> engine) option \<Rightarrow> string \<Rightarrow> OrchestrationWorkflow option" where
  "stored out workflowId = (case out of Some (r, e) \<Rightarrow> workflows e workflowId | None \<Rightarrow> None)"

text \<open>The ids of the tasks a state would dispatch next.\<close>

definition batch_ids :: "int \<Rightarrow> hybrid_state \<Rightarrow> string list" where
  "batch_ids maxp s = map (\<lambda>i. task_id (h_tasks s ! i)) (next_batch maxp s)"

text \<open>
  The references of a state are sound: no reference of \<^verbatim>\<open>remainingTasks\<close> occurs twice,
  and each one points to a task object of the workflow.
\<close>

definition refs_ok :: "hybrid_state \<Rightarrow> bool" where
  "refs_ok s \<longleftrightarrow>
     distinct (remainingTasks s) \<and> set (remainingTasks s) \<subseteq> {..<length (h_tasks s)}"

text \<open>One step of the \<^verbatim>\<open>forEach\<close> over \<^verbatim>\<open>batchResults\<close>.\<close>

definition collect_one :: "nat \<Rightarrow> task_result settled \<Rightarrow> hybrid_state \<Rightarrow> hybrid_state" where
  "collect_one i res s =
     (case res of
        Fulfilled v \<Rightarrow>
          s\<lparr>h_results := h_results s @ [v],
            completedTasks := insert (task_id (h_tasks s ! i)) (completedTasks s)\<rparr>
      | Rejected x \<Rightarrow> s)
     \<lparr>remainingTasks :=
        remove_first (\<lambda>r. task_id (h_tasks s ! r) = task_id (h_tasks s ! i)) (remainingTasks s)\<rparr>"

text \<open>A terminal status, and the number of tasks that have not reached one.\<close>

definition terminal :: "task_status \<Rightarrow> bool" where
  "terminal st \<longleftrightarrow> st = Completed \<or> st = Failed"

definition non_terminal :: "OrchestrationTask list \<Rightarrow> nat" where
  "non_terminal ts = length (filter (\<lambda>t. \<not> terminal (status t)) ts)"

text \<open>
  The states of a run that starts from pending tasks with distinct ids: the tasks that
  \<^verbatim>\<open>remainingTasks\<close> still refers to are pending.
\<close>

definition fresh_state :: "hybrid_state \<Rightarrow> bool" where
  "fresh_state s \<longleftrightarrow> refs_ok s \<and> distinct (map task_id (h_tasks s))
     \<and> (\<forall>r\<in>set (remainingTasks s). status (h_tasks s ! r) = Pending)"

text \<open>
  Every id in \<^verbatim>\<open>completedTasks\<close> is the id of a task that has a terminal status and
  that \<^verbatim>\<open>remainingTasks\<close> no longer refers to.
\<close>

definition settled_state :: "hybrid_state \<Rightarrow> bool" where
  "settled_state s \<longleftrightarrow> refs_ok s \<and> distinct (map task_id (h_tasks s))
     \<and> (\<forall>d\<in>completedTasks s. \<exists>j<length (h_tasks s).
           task_id (h_tasks s ! j) = d \<and> terminal (status (h_tasks s ! j))
           \<and> j \<notin> set (remainingTasks s))"

definition is_fulfilled :: "'a settled \<Rightarrow> bool" where
  "is_fulfilled x = (case x of Fulfilled v \<Rightarrow> True | Rejected r \<Rightarrow> False)"

text \<open>
  The task object on which \<open>executeTask\<close> invokes the agent: in progress, with its start
  time and its agent set.
\<close>

definition started :: "clock \<Rightarrow> engine \<Rightarrow> OrchestrationTask \<Rightarrow> OrchestrationTask" where
  "started clock e task =
     task\<lparr>status := InProgress, startTime := Some (clock (ticks e)),
          assignedAgent := Some (agentFor task)\<rparr>"

text \<open>
  Following the spec's words for the Batch Executor: the rank of a priority, and a batch
  chosen from a ready set by priority, highest first (no ready task left out outranks a
  chosen one).
\<close>

definition spec_priority_rank :: "priority \<Rightarrow> nat" where
  "spec_priority_rank p = (case p of Low \<Rightarrow> 0 | Medium \<Rightarrow> 1 | High \<Rightarrow> 2 | Critical \<Rightarrow> 3)"

definition spec_highest_first :: "OrchestrationTask list \<Rightarrow> nat list \<Rightarrow> nat list \<Rightarrow> bool" where
  "spec_highest_first ts ready batch \<longleftrightarrow>
     (\<forall>i\<in>set batch. \<forall>j\<in>set ready. j \<in> set batch \<or>
        spec_priority_rank (priority (ts ! j)) \<le> spec_priority_rank (priority (ts ! i)))"

text \<open>
  Every task that \<^verbatim>\<open>remainingTasks\<close> no longer refers to has been executed: it has a
  terminal status.
\<close>

definition executed_state :: "hybrid_state \<Rightarrow> bool" where
  "executed_state s \<longleftrightarrow> refs_ok s \<and> distinct (map task_id (h_tasks s))
     \<and> (\<forall>j<length (h_tasks s). j \<in> set (remainingTasks s) \<or> terminal (status (h_tasks s ! j)))"

subsection \<open>The workflows of the scenarios\<close>

text \<open>
  A task as a caller writes it, with the id the scenario gives it, and a hybrid workflow
  of such tasks held by a new engine under the id \<open>''w''\<close>.
\<close>

definition scenario_task :: "string \<Rightarrow> string list \<Rightarrow> OrchestrationTask" where
  "scenario_task i deps =
     \<lparr>task_id = i, task_type = Generate, description = ''work'', priority = Medium,
      dependencies = deps, assignedAgent = None, status = Pending, result = None,
      startTime = None, endTime = None\<rparr>"

definition scenario_workflow :: "OrchestrationTask list \<Rightarrow> int \<Rightarrow> OrchestrationWorkflow" where
  "scenario_workflow ts width =
     \<lparr>wf_id = ''w'', wf_name = ''scenario'', wf_description = ''scenario'', tasks = ts,
      executionMode = Hybrid,
      coordinationRules =
        \<lparr>maxParallelTasks = width, retryOnFailure = True, synthesisRequired = True\<rparr>,
      wf_status = Initialized, wf_startTime = None, wf_endTime = None\<rparr>"

definition engine_holding :: "OrchestrationWorkflow \<Rightarrow> engine" where
  "engine_holding workflow = new_engine\<lparr>workflows := [wf_id workflow \<mapsto> workflow]\<rparr>"

text \<open>The scenario \<^verbatim>\<open>{A: deps=[], B: deps=[], C: deps=[A,B]}\<close>, \<^verbatim>\<open>maxParallelWidth=2\<close>.\<close>

definition workflow_ABC :: OrchestrationWorkflow where
  "workflow_ABC =
     scenario_workflow
       [scenario_task ''A'' [], scenario_task ''B'' [], scenario_task ''C'' [''A'', ''B'']] 2"

text \<open>Two tasks without dependencies, of low and of critical priority, and a width of one.\<close>

definition workflow_low_critical :: OrchestrationWorkflow where
  "workflow_low_critical =
     scenario_workflow
       [(scenario_task ''A'' [])\<lparr>priority := Low\<rparr>,
        (scenario_task ''B'' [])\<lparr>priority := Critical\<rparr>] 1"

text \<open>
  A task whose agent is not registered (the id \<^verbatim>\<open>'analyzer'\<close> that
  \<^verbatim>\<open>cognitive-integration.ts\<close> assigns) beside a task with a dependency id that no task
  carries.
\<close>

definition workflow_failed_stalled :: OrchestrationWorkflow where
  "workflow_failed_stalled =
     scenario_workflow
       [(scenario_task ''A'' [])\<lparr>assignedAgent := Some ''analyzer''\<rparr>,
        scenario_task ''B'' [''missing'']] 3"

text \<open>
  Calls of \<open>createWorkflow\<close> on a new engine, at clock reading \<open>0\<close> and with the random
  suffix \<open>''abc''\<close>: the workflow id is \<open>''workflow-0-abc''\<close>. A dependency on
  a task of the created workflow names the id that the task is given (a caller can as well set
  it on the returned workflow object, which the engine holds by reference). In the first the
  two tasks depend on each other by the ids they are given; in the second the task B depends on a
  task A whose agent is not registered; in the third the task B names a dependency that is
  no task.
\<close>

definition created :: "OrchestrationTask list \<Rightarrow> OrchestrationWorkflow \<times> engine" where
  "created ts = createWorkflow int ''abc'' ''scenario'' ''scenario'' ts Hybrid new_engine"

definition cycle_inputs :: "OrchestrationTask list" where
  "cycle_inputs =
     [scenario_task ''A'' [''workflow-0-abc-task-1''],
      scenario_task ''B'' [''workflow-0-abc-task-0'']]"

text \<open>The scenario as it is written: the tasks name each other by the ids \<open>A\<close> and \<open>B\<close>.\<close>

definition literal_cycle_inputs :: "OrchestrationTask list" where
  "literal_cycle_inputs = [scenario_task ''A'' [''B''], scenario_task ''B'' [''A'']]"

definition failing_inputs :: "OrchestrationTask list" where
  "failing_inputs =
     [(scenario_task ''A'' [])\<lparr>assignedAgent := Some ''analyzer''\<rparr>,
      scenario_task ''B'' [''workflow-0-abc-task-0'']]"

definition dangling_inputs :: "OrchestrationTask list" where
  "dangling_inputs = [scenario_task ''A'' [], scenario_task ''B'' [''ghost'']]"

text \<open>The run of \<open>executeWorkflow\<close> on such a workflow, with the repository's invocation.\<close>

definition run_created ::
  "OrchestrationTask list \<Rightarrow> ((any + workflow_result) \<times> engine) option" where
  "run_created ts =
     executeWorkflow int simulateTaskExecution (length ts) (wf_id (fst (created ts))) (snd (created ts))"

text \<open>
  Tasks with the ids \<^verbatim>\<open>decomposeRequest\<close> gives (\<^verbatim>\<open>task-<time>-analysis\<close>,
  \<^verbatim>\<open>task-<time>-generate\<close>), the second depending on the first by that id.
\<close>

definition decomposed_inputs :: "OrchestrationTask list" where
  "decomposed_inputs =
     [(scenario_task ''task-1-analysis'' [])\<lparr>task_type := Analyze\<rparr>,
      scenario_task ''task-1-generate'' [''task-1-analysis'']]"

text \<open>
  Two tasks without dependencies, and what a first run of \<open>executeWorkflow\<close> leaves of the
  workflow created from them: the workflow the engine holds, its tasks completed, and the
  engine. A second call of \<open>executeWorkflow\<close> with the same id starts from these.
\<close>

definition independent_inputs :: "OrchestrationTask list" where
  "independent_inputs = [scenario_task ''A'' [], scenario_task ''B'' []]"

definition rerun_workflow :: OrchestrationWorkflow where
  "rerun_workflow =
     (case stored (run_created independent_inputs) ''workflow-0-abc'' of
        Some w \<Rightarrow> w
      | None \<Rightarrow> fst (created independent_inputs))"

definition rerun_engine :: engine where
  "rerun_engine =
     (case run_created independent_inputs of
        Some (r, e) \<Rightarrow> e
      | None \<Rightarrow> snd (created independent_inputs))"

text \<open>
  The workflow of the scenario with its width set to zero on the workflow object
  (\<^verbatim>\<open>workflow.coordinationRules.maxParallelTasks = 0\<close>).
\<close>

definition workflow_width_zero :: OrchestrationWorkflow where
  "workflow_width_zero =
     workflow_ABC\<lparr>coordinationRules := (coordinationRules workflow_ABC)\<lparr>maxParallelTasks := 0\<rparr>\<rparr>"

text \<open>The state in which the hybrid loop of that second call starts.\<close>

definition rerun_state :: hybrid_state where
  "rerun_state = hybrid_init rerun_workflow (rerun_engine\<lparr>ticks := Suc (ticks rerun_engine)\<rparr>)"

section \<open>Properties of the embedding\<close>

subsection \<open>One batch\<close>

lemma agentFor_cong [simp]:
  "agentFor (task\<lparr>status := st, startTime := t\<rparr>) = agentFor task"
  by (simp add: agentFor_def split: option.splits)

lemma executeTask_begin_fields:
  assumes "executeTask_begin clock invoke task e = (p, task1, e1)"
  shows "task_id task1 = task_id task" and "dependencies task1 = dependencies task"
    and "priority task1 = priority task"
    and "status task1 = (case p of Resolved r \<Rightarrow> Failed | Awaiting k a out \<Rightarrow> InProgress)"
  using assms by (auto simp: executeTask_begin_def Let_def split: option.splits)

lemma executeTask_resume_fields:
  assumes "executeTask_resume clock key agent out task e = (r, task1, e1)"
  shows "task_id task1 = task_id task" and "dependencies task1 = dependencies task"
    and "priority task1 = priority task"
    and "status task1 = (case out of Returns v \<Rightarrow> Completed | Throws x \<Rightarrow> Failed)"
    and "success r = (case out of Returns v \<Rightarrow> True | Throws x \<Rightarrow> False)"
  using assms by (auto simp: executeTask_resume_def Let_def split: invocation.splits)

lemma map_update_same:
  "f t = f (ts ! i) \<Longrightarrow> map f (ts[i := t]) = map f ts"
  by (cases "i < length ts") (simp_all add: map_update list_update_same_conv list_update_beyond)

lemma begin_all_ids:
  "begin_all clock invoke refs ts e = (ps, ts1, e1) \<Longrightarrow>
     map task_id ts1 = map task_id ts \<and> map dependencies ts1 = map dependencies ts \<and>
     length ps = length refs"
proof (induction refs arbitrary: ts e ps ts1 e1)
  case Nil
  then show ?case by simp
next
  case (Cons i refs)
  obtain p task1 e0 where b: "executeTask_begin clock invoke (ts ! i) e = (p, task1, e0)"
    by (cases "executeTask_begin clock invoke (ts ! i) e") auto
  obtain ps' ts' e' where r: "begin_all clock invoke refs (ts[i := task1]) e0 = (ps', ts', e')"
    by (cases "begin_all clock invoke refs (ts[i := task1]) e0") auto
  from Cons.prems b r have eq: "ps = p # ps'" "ts1 = ts'" "e1 = e'" by auto
  from Cons.IH [OF r] executeTask_begin_fields(1,2) [OF b] show ?case
    by (simp add: eq map_update_same)
qed

lemma begin_all_other:
  "begin_all clock invoke refs ts e = (ps, ts1, e1) \<Longrightarrow> j \<notin> set refs \<Longrightarrow> ts1 ! j = ts ! j"
proof (induction refs arbitrary: ts e ps ts1 e1)
  case Nil
  then show ?case by simp
next
  case (Cons i refs)
  obtain p task1 e0 where b: "executeTask_begin clock invoke (ts ! i) e = (p, task1, e0)"
    by (cases "executeTask_begin clock invoke (ts ! i) e") auto
  obtain ps' ts' e' where r: "begin_all clock invoke refs (ts[i := task1]) e0 = (ps', ts', e')"
    by (cases "begin_all clock invoke refs (ts[i := task1]) e0") auto
  from Cons.prems b r have eq: "ps = p # ps'" "ts1 = ts'" "e1 = e'" by auto
  from Cons.prems(2) have "j \<noteq> i" "j \<notin> set refs" by auto
  with Cons.IH [OF r] show ?case by (simp add: eq)
qed

lemma begin_all_status:
  "begin_all clock invoke refs ts e = (ps, ts1, e1) \<Longrightarrow> distinct refs \<Longrightarrow>
   (i, p) \<in> set (zip refs ps) \<Longrightarrow> i < length ts \<Longrightarrow>
   status (ts1 ! i) = (case p of Resolved r \<Rightarrow> Failed | Awaiting k a out \<Rightarrow> InProgress)"
proof (induction refs arbitrary: ts e ps ts1 e1)
  case Nil
  then show ?case by simp
next
  case (Cons i0 refs)
  obtain p0 task1 e0 where b: "executeTask_begin clock invoke (ts ! i0) e = (p0, task1, e0)"
    by (cases "executeTask_begin clock invoke (ts ! i0) e") auto
  obtain ps' ts' e' where r: "begin_all clock invoke refs (ts[i0 := task1]) e0 = (ps', ts', e')"
    by (cases "begin_all clock invoke refs (ts[i0 := task1]) e0") auto
  from Cons.prems(1) b r have eq: "ps = p0 # ps'" "ts1 = ts'" "e1 = e'" by auto
  from Cons.prems(2) have d: "i0 \<notin> set refs" "distinct refs" by auto
  from Cons.prems(3) eq consider "i = i0" "p = p0" | "(i, p) \<in> set (zip refs ps')" by auto
  then show ?case
  proof cases
    case 1
    have "ts' ! i0 = (ts[i0 := task1]) ! i0" using begin_all_other [OF r d(1)] .
    with 1 Cons.prems(4) executeTask_begin_fields(4) [OF b] show ?thesis by (simp add: eq)
  next
    case 2
    from Cons.IH [OF r d(2) 2] Cons.prems(4) show ?thesis by (simp add: eq)
  qed
qed

lemma settle_all_ids:
  "settle_all clock zs ts e = (rs, ts1, e1) \<Longrightarrow>
     map task_id ts1 = map task_id ts \<and> map dependencies ts1 = map dependencies ts \<and>
     length rs = length zs \<and> (\<forall>x\<in>set rs. \<exists>v. x = Fulfilled v)"
proof (induction clock zs ts e arbitrary: rs ts1 e1 rule: settle_all.induct)
  case (1 clock ts e)
  then show ?case by simp
next
  case (2 clock i r ps ts e)
  then show ?case by (auto split: prod.splits)
next
  case (3 clock i key agent outcome ps ts e)
  obtain r task1 e0 where b: "executeTask_resume clock key agent outcome (ts ! i) e = (r, task1, e0)"
    by (cases "executeTask_resume clock key agent outcome (ts ! i) e") auto
  obtain rs' ts' e' where s: "settle_all clock ps (ts[i := task1]) e0 = (rs', ts', e')"
    by (cases "settle_all clock ps (ts[i := task1]) e0") auto
  from "3.prems" b s have eq: "rs = Fulfilled r # rs'" "ts1 = ts'" "e1 = e'" by auto
  from "3.IH" [OF b [symmetric] refl s] executeTask_resume_fields(1,2) [OF b] show ?case
    by (simp add: eq map_update_same)
qed

lemma settle_all_other:
  "settle_all clock zs ts e = (rs, ts1, e1) \<Longrightarrow> j \<notin> fst ` set zs \<Longrightarrow> ts1 ! j = ts ! j"
proof (induction clock zs ts e arbitrary: rs ts1 e1 rule: settle_all.induct)
  case (1 clock ts e)
  then show ?case by simp
next
  case (2 clock i r ps ts e)
  then show ?case by (auto split: prod.splits)
next
  case (3 clock i key agent outcome ps ts e)
  obtain r task1 e0 where b: "executeTask_resume clock key agent outcome (ts ! i) e = (r, task1, e0)"
    by (cases "executeTask_resume clock key agent outcome (ts ! i) e") auto
  obtain rs' ts' e' where s: "settle_all clock ps (ts[i := task1]) e0 = (rs', ts', e')"
    by (cases "settle_all clock ps (ts[i := task1]) e0") auto
  from "3.prems" b s have eq: "rs = Fulfilled r # rs'" "ts1 = ts'" "e1 = e'" by auto
  from "3.prems"(2) have "j \<noteq> i" "j \<notin> fst ` set ps" by auto
  with "3.IH" [OF b [symmetric] refl s] show ?case by (simp add: eq)
qed

lemma settle_all_status:
  "settle_all clock zs ts e = (rs, ts1, e1) \<Longrightarrow> distinct (map fst zs) \<Longrightarrow>
   (i, p) \<in> set zs \<Longrightarrow> i < length ts \<Longrightarrow>
   status (ts1 ! i) = (case p of Resolved r \<Rightarrow> status (ts ! i) | Awaiting k a out \<Rightarrow> final_status p)"
proof (induction clock zs ts e arbitrary: rs ts1 e1 rule: settle_all.induct)
  case (1 clock ts e)
  then show ?case by simp
next
  case (2 clock i0 r ps ts e)
  obtain rs' ts' e' where s: "settle_all clock ps ts e = (rs', ts', e')"
    by (cases "settle_all clock ps ts e") auto
  from "2.prems"(1) s have eq: "ts1 = ts'" by auto
  from "2.prems"(2) have d: "i0 \<notin> fst ` set ps" "distinct (map fst ps)" by auto
  from "2.prems"(3) consider "i = i0" "p = Resolved r" | "(i, p) \<in> set ps" by auto
  then show ?case
  proof cases
    case 1
    with settle_all_other [OF s d(1)] show ?thesis by (simp add: eq)
  next
    case 2
    from "2.IH" [OF s d(2) 2 "2.prems"(4)] show ?thesis by (simp add: eq)
  qed
next
  case (3 clock i0 key agent outcome ps ts e)
  obtain r task1 e0 where b: "executeTask_resume clock key agent outcome (ts ! i0) e = (r, task1, e0)"
    by (cases "executeTask_resume clock key agent outcome (ts ! i0) e") auto
  obtain rs' ts' e' where s: "settle_all clock ps (ts[i0 := task1]) e0 = (rs', ts', e')"
    by (cases "settle_all clock ps (ts[i0 := task1]) e0") auto
  from "3.prems"(1) b s have eq: "rs = Fulfilled r # rs'" "ts1 = ts'" "e1 = e'" by auto
  from "3.prems"(2) have d: "i0 \<notin> fst ` set ps" "distinct (map fst ps)" by auto
  from "3.prems"(3) consider "i = i0" "p = Awaiting key agent outcome" | "(i, p) \<in> set ps" by auto
  then show ?case
  proof cases
    case 1
    have "ts' ! i0 = (ts[i0 := task1]) ! i0" using settle_all_other [OF s d(1)] .
    with 1 "3.prems"(4) executeTask_resume_fields(4) [OF b] show ?thesis
      by (simp add: eq final_status_def)
  next
    case 2
    then have "i \<noteq> i0" using d(1) by force
    with "3.IH" [OF b [symmetric] refl s d(2) 2] "3.prems"(4) show ?thesis
      by (simp add: eq split: suspended.splits)
  qed
qed

lemma run_batch_ids:
  assumes "run_batch clock invoke batch ts e = (rs, ts2, e2)"
  shows "map task_id ts2 = map task_id ts" and "map dependencies ts2 = map dependencies ts"
    and "length rs = length batch" and "\<forall>x\<in>set rs. \<exists>v. x = Fulfilled v"
proof -
  obtain ps ts1 e1 where b: "begin_all clock invoke batch ts e = (ps, ts1, e1)"
    by (cases "begin_all clock invoke batch ts e") auto
  with assms have s: "settle_all clock (zip batch ps) ts1 e1 = (rs, ts2, e2)"
    by (simp add: run_batch_def)
  from begin_all_ids [OF b] settle_all_ids [OF s]
  show "map task_id ts2 = map task_id ts" and "map dependencies ts2 = map dependencies ts"
    and "length rs = length batch" and "\<forall>x\<in>set rs. \<exists>v. x = Fulfilled v"
    by simp_all
qed

lemma run_batch_other:
  assumes "run_batch clock invoke batch ts e = (rs, ts2, e2)" and "j \<notin> set batch"
  shows "ts2 ! j = ts ! j"
proof -
  obtain ps ts1 e1 where b: "begin_all clock invoke batch ts e = (ps, ts1, e1)"
    by (cases "begin_all clock invoke batch ts e") auto
  with assms have s: "settle_all clock (zip batch ps) ts1 e1 = (rs, ts2, e2)"
    by (simp add: run_batch_def)
  from assms(2) have "j \<notin> fst ` set (zip batch ps)" by (auto dest: set_zip_leftD)
  from settle_all_other [OF s this] begin_all_other [OF b assms(2)] show ?thesis by simp
qed

lemma run_batch_status:
  assumes "run_batch clock invoke batch ts e = (rs, ts2, e2)" and "distinct batch"
    and "i \<in> set batch" and "i < length ts"
  shows "status (ts2 ! i) = Completed \<or> status (ts2 ! i) = Failed"
proof -
  obtain ps ts1 e1 where b: "begin_all clock invoke batch ts e = (ps, ts1, e1)"
    by (cases "begin_all clock invoke batch ts e") auto
  with assms have s: "settle_all clock (zip batch ps) ts1 e1 = (rs, ts2, e2)"
    by (simp add: run_batch_def)
  from begin_all_ids [OF b] have len: "length ps = length batch" "length ts1 = length ts"
    by (auto dest: arg_cong [where f = length])
  from assms(3) len obtain p where ip: "(i, p) \<in> set (zip batch ps)"
    by (metis in_set_impl_in_set_zip1)
  from len assms(2) have d: "distinct (map fst (zip batch ps))" by simp
  from begin_all_status [OF b assms(2) ip assms(4)]
    settle_all_status [OF s d ip] assms(4) len
  show ?thesis by (auto simp: final_status_def split: suspended.splits invocation.splits)
qed

lemma findIndex_splice:
  "(case findIndex P xs of None \<Rightarrow> xs | Some k \<Rightarrow> splice1 k xs) = remove_first P xs"
  by (induction xs) (auto simp: splice1_def split: option.splits)

lemma remove_first_unique:
  "distinct xs \<Longrightarrow> (\<forall>x\<in>set xs. P x \<longleftrightarrow> x = a) \<Longrightarrow> remove_first P xs = filter (\<lambda>x. x \<noteq> a) xs"
proof (induction xs)
  case Nil
  then show ?case by simp
next
  case (Cons x xs)
  show ?case
  proof (cases "P x")
    case True
    with Cons.prems have "x = a" "a \<notin> set xs" by auto
    then have "filter (\<lambda>x. x \<noteq> a) xs = xs" by (auto simp: filter_id_conv)
    with True \<open>x = a\<close> show ?thesis by simp
  next
    case False
    with Cons.prems have "x \<noteq> a" by auto
    with False Cons show ?thesis by simp
  qed
qed

lemma length_remove_first: "length (remove_first P xs) \<le> length xs"
  by (induction xs) auto

lemma length_remove_first_less: "\<exists>x\<in>set xs. P x \<Longrightarrow> length (remove_first P xs) < length xs"
  by (induction xs) auto

lemma collect_batch_fields:
  "h_tasks (collect_batch zs s) = h_tasks s \<and> h_engine (collect_batch zs s) = h_engine s"
  by (induction zs s rule: collect_batch.induct) (auto simp: Let_def split: settled.splits option.splits)

lemma collect_batch_completed:
  "\<forall>x\<in>set (map snd zs). \<exists>v. x = Fulfilled v \<Longrightarrow>
   completedTasks (collect_batch zs s) =
     completedTasks s \<union> (\<lambda>i. task_id (h_tasks s ! i)) ` fst ` set zs"
  by (induction zs s rule: collect_batch.induct)
     (auto simp: Let_def split: settled.splits option.splits)

lemma collect_batch_remaining:
  "distinct (remainingTasks s) \<Longrightarrow> set (remainingTasks s) \<subseteq> {..<length (h_tasks s)} \<Longrightarrow>
   distinct (map task_id (h_tasks s)) \<Longrightarrow> fst ` set zs \<subseteq> {..<length (h_tasks s)} \<Longrightarrow>
   remainingTasks (collect_batch zs s) = filter (\<lambda>r. r \<notin> fst ` set zs) (remainingTasks s)"
proof (induction zs arbitrary: s)
  case Nil
  then show ?case by simp
next
  case (Cons z rest)
  obtain i res where z: "z = (i, res)" by (cases z)
  define s1 where "s1 = (case res of
       Fulfilled v \<Rightarrow> s\<lparr>h_results := h_results s @ [v],
           completedTasks := insert (task_id (h_tasks s ! i)) (completedTasks s)\<rparr>
     | Rejected x \<Rightarrow> s)"
  define s2 where "s2 = s1\<lparr>remainingTasks :=
       remove_first (\<lambda>r. task_id (h_tasks s1 ! r) = task_id (h_tasks s ! i)) (remainingTasks s1)\<rparr>"
  have f1: "h_tasks s1 = h_tasks s" "remainingTasks s1 = remainingTasks s"
    by (auto simp: s1_def split: settled.splits)
  have step: "collect_batch (z # rest) s = collect_batch rest s2"
    using findIndex_splice [where P = "\<lambda>r. task_id (h_tasks s1 ! r) = task_id (h_tasks s ! i)"
        and xs = "remainingTasks s1"]
    by (auto simp: z Let_def s1_def s2_def split: option.splits settled.splits)
  have i: "i < length (h_tasks s)" using Cons.prems(4) by (auto simp: z)
  have uniq: "\<forall>r\<in>set (remainingTasks s). (task_id (h_tasks s ! r) = task_id (h_tasks s ! i)) \<longleftrightarrow> r = i"
  proof
    fix r assume "r \<in> set (remainingTasks s)"
    with Cons.prems(2) have "r < length (h_tasks s)" by auto
    with i Cons.prems(3) show "(task_id (h_tasks s ! r) = task_id (h_tasks s ! i)) \<longleftrightarrow> r = i"
      by (metis distinct_conv_nth length_map nth_map)
  qed
  have rem2: "remainingTasks s2 = filter (\<lambda>r. r \<noteq> i) (remainingTasks s)"
    using remove_first_unique [OF Cons.prems(1) uniq] by (simp add: s2_def f1)
  have t2: "h_tasks s2 = h_tasks s" by (simp add: s2_def f1)
  have "remainingTasks (collect_batch rest s2) = filter (\<lambda>r. r \<notin> fst ` set rest) (remainingTasks s2)"
    using Cons.prems by (intro Cons.IH) (auto simp: rem2 t2)
  then show ?case unfolding step rem2 by (auto simp: z intro: filter_cong)
qed

subsection \<open>The collection of a batch and the choice of the next one\<close>

lemma set_remove_first: "set (remove_first P xs) \<subseteq> set xs"
  by (induction xs) auto

lemma distinct_remove_first: "distinct xs \<Longrightarrow> distinct (remove_first P xs)"
  using set_remove_first [of P] by (induction xs) auto

lemma collect_batch_step:
  "collect_batch ((i, res) # rest) s = collect_batch rest (collect_one i res s)"
  using findIndex_splice [where P = "\<lambda>r. task_id (h_tasks s ! r) = task_id (h_tasks s ! i)"
      and xs = "remainingTasks s"]
  by (cases res) (auto simp: Let_def collect_one_def split: option.splits)

lemma collect_one_fields:
  "h_tasks (collect_one i res s) = h_tasks s"
  "h_engine (collect_one i res s) = h_engine s"
  "remainingTasks (collect_one i res s) =
     remove_first (\<lambda>r. task_id (h_tasks s ! r) = task_id (h_tasks s ! i)) (remainingTasks s)"
  "completedTasks (collect_one i (Fulfilled v) s) = insert (task_id (h_tasks s ! i)) (completedTasks s)"
  "h_results (collect_one i (Fulfilled v) s) = h_results s @ [v]"
  by (auto simp: collect_one_def split: settled.splits)

lemma collect_batch_subset:
  "set (remainingTasks (collect_batch zs s)) \<subseteq> set (remainingTasks s)"
proof (induction zs arbitrary: s)
  case Nil
  then show ?case by simp
next
  case (Cons z rest)
  obtain i res where z: "z = (i, res)" by (cases z)
  have "set (remainingTasks (collect_one i res s)) \<subseteq> set (remainingTasks s)"
    by (simp add: collect_one_fields set_remove_first)
  with Cons.IH [of "collect_one i res s"] show ?case
    unfolding z collect_batch_step by blast
qed

lemma collect_batch_distinct:
  "distinct (remainingTasks s) \<Longrightarrow> distinct (remainingTasks (collect_batch zs s))"
proof (induction zs arbitrary: s)
  case Nil
  then show ?case by simp
next
  case (Cons z rest)
  obtain i res where z: "z = (i, res)" by (cases z)
  have "distinct (remainingTasks (collect_one i res s))"
    using Cons.prems by (simp add: collect_one_fields distinct_remove_first)
  from Cons.IH [OF this] show ?case
    unfolding z collect_batch_step .
qed

lemma collect_batch_length:
  "length (remainingTasks (collect_batch zs s)) \<le> length (remainingTasks s)"
proof (induction zs arbitrary: s)
  case Nil
  then show ?case by simp
next
  case (Cons z rest)
  obtain i res where z: "z = (i, res)" by (cases z)
  have "length (remainingTasks (collect_one i res s)) \<le> length (remainingTasks s)"
    by (simp add: collect_one_fields length_remove_first)
  with Cons.IH [of "collect_one i res s"] show ?case
    unfolding z collect_batch_step by linarith
qed

lemma collect_batch_length_less:
  assumes "zs \<noteq> []" and "fst (hd zs) \<in> set (remainingTasks s)"
  shows "length (remainingTasks (collect_batch zs s)) < length (remainingTasks s)"
proof -
  from assms(1) obtain i res rest where zs: "zs = (i, res) # rest" by (cases zs) auto
  with assms(2) have "i \<in> set (remainingTasks s)" by simp
  then have "\<exists>x\<in>set (remainingTasks s). task_id (h_tasks s ! x) = task_id (h_tasks s ! i)"
    by blast
  then have "length (remainingTasks (collect_one i res s)) < length (remainingTasks s)"
    by (simp add: collect_one_fields length_remove_first_less)
  with collect_batch_length [of rest "collect_one i res s"] show ?thesis
    unfolding zs collect_batch_step by linarith
qed

lemma collect_batch_results:
  "\<forall>x\<in>set (map snd zs). \<exists>v. x = Fulfilled v \<Longrightarrow>
   length (h_results (collect_batch zs s)) = length (h_results s) + length zs"
proof (induction zs arbitrary: s)
  case Nil
  then show ?case by simp
next
  case (Cons z rest)
  obtain i res where z: "z = (i, res)" by (cases z)
  with Cons.prems obtain v where v: "res = Fulfilled v" by auto
  from Cons.prems have "\<forall>x\<in>set (map snd rest). \<exists>v. x = Fulfilled v" by simp
  from Cons.IH [OF this, of "collect_one i res s"] show ?case
    unfolding z collect_batch_step by (simp add: v collect_one_fields)
qed

lemma slice0_take: "\<exists>n. slice0 xs e = take n xs"
  by (auto simp: slice0_def)

lemma next_batch_subset: "set (next_batch maxp s) \<subseteq> set (remainingTasks s)"
proof -
  obtain n where "next_batch maxp s = take n (readyTasks s)"
    using slice0_take [of "readyTasks s" maxp] by (auto simp: next_batch_def)
  then have "set (next_batch maxp s) \<subseteq> set (readyTasks s)" by (simp add: set_take_subset)
  then show ?thesis by (auto simp: readyTasks_def)
qed

lemma next_batch_ready: "set (next_batch maxp s) \<subseteq> set (readyTasks s)"
proof -
  obtain n where "next_batch maxp s = take n (readyTasks s)"
    using slice0_take [of "readyTasks s" maxp] by (auto simp: next_batch_def)
  then show ?thesis by (simp add: set_take_subset)
qed

lemma next_batch_distinct: "distinct (remainingTasks s) \<Longrightarrow> distinct (next_batch maxp s)"
proof -
  assume d: "distinct (remainingTasks s)"
  obtain n where "next_batch maxp s = take n (readyTasks s)"
    using slice0_take [of "readyTasks s" maxp] by (auto simp: next_batch_def)
  with d show ?thesis by (simp add: readyTasks_def)
qed

lemma next_batch_nonempty: "1 \<le> maxp \<Longrightarrow> readyTasks s \<noteq> [] \<Longrightarrow> next_batch maxp s \<noteq> []"
  by (auto simp: next_batch_def slice0_def)

subsection \<open>One round of the hybrid loop\<close>

lemma hybrid_round_unfold:
  obtains rs ts2 e2 where
    "run_batch clock invoke (next_batch maxp s) (h_tasks s) (h_engine s) = (rs, ts2, e2)"
    and "hybrid_round clock invoke maxp s =
           collect_batch (zip (next_batch maxp s) rs) (s\<lparr>h_tasks := ts2, h_engine := e2\<rparr>)"
  by (cases "run_batch clock invoke (next_batch maxp s) (h_tasks s) (h_engine s)")
     (auto simp: hybrid_round_def Let_def)

lemma round_ids:
  "map task_id (h_tasks (hybrid_round clock invoke maxp s)) = map task_id (h_tasks s)"
  "map dependencies (h_tasks (hybrid_round clock invoke maxp s)) = map dependencies (h_tasks s)"
  "length (h_tasks (hybrid_round clock invoke maxp s)) = length (h_tasks s)"
proof -
  obtain rs ts2 e2 where
    rb: "run_batch clock invoke (next_batch maxp s) (h_tasks s) (h_engine s) = (rs, ts2, e2)"
    and hr: "hybrid_round clock invoke maxp s =
           collect_batch (zip (next_batch maxp s) rs) (s\<lparr>h_tasks := ts2, h_engine := e2\<rparr>)"
    by (rule hybrid_round_unfold)
  from run_batch_ids(1,2) [OF rb]
  show "map task_id (h_tasks (hybrid_round clock invoke maxp s)) = map task_id (h_tasks s)"
    and "map dependencies (h_tasks (hybrid_round clock invoke maxp s)) = map dependencies (h_tasks s)"
    by (simp_all add: hr collect_batch_fields)
  then show "length (h_tasks (hybrid_round clock invoke maxp s)) = length (h_tasks s)"
    by (auto dest: arg_cong [where f = length])
qed

lemma round_other:
  "j \<notin> set (next_batch maxp s) \<Longrightarrow> h_tasks (hybrid_round clock invoke maxp s) ! j = h_tasks s ! j"
proof -
  assume j: "j \<notin> set (next_batch maxp s)"
  obtain rs ts2 e2 where
    rb: "run_batch clock invoke (next_batch maxp s) (h_tasks s) (h_engine s) = (rs, ts2, e2)"
    and hr: "hybrid_round clock invoke maxp s =
           collect_batch (zip (next_batch maxp s) rs) (s\<lparr>h_tasks := ts2, h_engine := e2\<rparr>)"
    by (rule hybrid_round_unfold)
  from run_batch_other [OF rb j] show ?thesis by (simp add: hr collect_batch_fields)
qed

lemma round_status:
  assumes "refs_ok s" and "i \<in> set (next_batch maxp s)"
  shows "status (h_tasks (hybrid_round clock invoke maxp s) ! i) = Completed
       \<or> status (h_tasks (hybrid_round clock invoke maxp s) ! i) = Failed"
proof -
  obtain rs ts2 e2 where
    rb: "run_batch clock invoke (next_batch maxp s) (h_tasks s) (h_engine s) = (rs, ts2, e2)"
    and hr: "hybrid_round clock invoke maxp s =
           collect_batch (zip (next_batch maxp s) rs) (s\<lparr>h_tasks := ts2, h_engine := e2\<rparr>)"
    by (rule hybrid_round_unfold)
  from assms next_batch_subset [of maxp s] have i: "i < length (h_tasks s)"
    by (auto simp: refs_ok_def)
  from assms(1) have d: "distinct (next_batch maxp s)"
    by (simp add: refs_ok_def next_batch_distinct)
  from run_batch_status [OF rb d assms(2) i] show ?thesis by (simp add: hr collect_batch_fields)
qed

lemma round_completed:
  assumes "refs_ok s"
  shows "completedTasks (hybrid_round clock invoke maxp s) =
           completedTasks s \<union> (\<lambda>i. task_id (h_tasks s ! i)) ` set (next_batch maxp s)"
proof -
  obtain rs ts2 e2 where
    rb: "run_batch clock invoke (next_batch maxp s) (h_tasks s) (h_engine s) = (rs, ts2, e2)"
    and hr: "hybrid_round clock invoke maxp s =
           collect_batch (zip (next_batch maxp s) rs) (s\<lparr>h_tasks := ts2, h_engine := e2\<rparr>)"
    by (rule hybrid_round_unfold)
  note rbi = run_batch_ids [OF rb]
  have ful: "\<forall>x\<in>set (map snd (zip (next_batch maxp s) rs)). \<exists>v. x = Fulfilled v"
    using rbi(3,4) by simp
  have fst: "fst ` set (zip (next_batch maxp s) rs) = set (next_batch maxp s)"
    using rbi(3) by (metis map_fst_zip set_map)
  have same: "task_id (ts2 ! i) = task_id (h_tasks s ! i)" if "i \<in> set (next_batch maxp s)" for i
  proof -
    from that assms next_batch_subset [of maxp s] have i: "i < length (h_tasks s)"
      by (auto simp: refs_ok_def)
    from rbi(1) have "map task_id ts2 ! i = map task_id (h_tasks s) ! i" by simp
    with i rbi(1) show ?thesis by (metis length_map nth_map)
  qed
  show ?thesis
    unfolding hr collect_batch_completed [OF ful] fst
    using same by auto
qed

lemma round_results:
  "length (h_results (hybrid_round clock invoke maxp s)) =
     length (h_results s) + length (next_batch maxp s)"
proof -
  obtain rs ts2 e2 where
    rb: "run_batch clock invoke (next_batch maxp s) (h_tasks s) (h_engine s) = (rs, ts2, e2)"
    and hr: "hybrid_round clock invoke maxp s =
           collect_batch (zip (next_batch maxp s) rs) (s\<lparr>h_tasks := ts2, h_engine := e2\<rparr>)"
    by (rule hybrid_round_unfold)
  note rbi = run_batch_ids [OF rb]
  have ful: "\<forall>x\<in>set (map snd (zip (next_batch maxp s) rs)). \<exists>v. x = Fulfilled v"
    using rbi(3,4) by simp
  show ?thesis unfolding hr collect_batch_results [OF ful] using rbi(3) by simp
qed

lemma round_remaining_subset:
  "set (remainingTasks (hybrid_round clock invoke maxp s)) \<subseteq> set (remainingTasks s)"
proof -
  obtain rs ts2 e2 where
    hr: "hybrid_round clock invoke maxp s =
           collect_batch (zip (next_batch maxp s) rs) (s\<lparr>h_tasks := ts2, h_engine := e2\<rparr>)"
    by (rule hybrid_round_unfold)
  show ?thesis unfolding hr
    using collect_batch_subset [of "zip (next_batch maxp s) rs" "s\<lparr>h_tasks := ts2, h_engine := e2\<rparr>"]
    by simp
qed

lemma round_refs_ok:
  assumes "refs_ok s"
  shows "refs_ok (hybrid_round clock invoke maxp s)"
proof -
  obtain rs ts2 e2 where
    hr: "hybrid_round clock invoke maxp s =
           collect_batch (zip (next_batch maxp s) rs) (s\<lparr>h_tasks := ts2, h_engine := e2\<rparr>)"
    by (rule hybrid_round_unfold)
  have "distinct (remainingTasks (hybrid_round clock invoke maxp s))"
    unfolding hr using assms by (intro collect_batch_distinct) (simp add: refs_ok_def)
  with round_remaining_subset [of clock invoke maxp s] round_ids(3) [of clock invoke maxp s] assms
  show ?thesis by (auto simp: refs_ok_def)
qed

lemma round_remaining_less:
  assumes "next_batch maxp s \<noteq> []"
  shows "length (remainingTasks (hybrid_round clock invoke maxp s)) < length (remainingTasks s)"
proof -
  obtain rs ts2 e2 where
    rb: "run_batch clock invoke (next_batch maxp s) (h_tasks s) (h_engine s) = (rs, ts2, e2)"
    and hr: "hybrid_round clock invoke maxp s =
           collect_batch (zip (next_batch maxp s) rs) (s\<lparr>h_tasks := ts2, h_engine := e2\<rparr>)"
    by (rule hybrid_round_unfold)
  note rbi = run_batch_ids [OF rb]
  from assms rbi(3) obtain b bs r rs' where eq: "next_batch maxp s = b # bs" "rs = r # rs'"
    by (cases "next_batch maxp s"; cases rs) auto
  then have b: "b \<in> set (remainingTasks s)" using next_batch_subset [of maxp s] by auto
  show ?thesis unfolding hr
    using collect_batch_length_less [of "zip (next_batch maxp s) rs" "s\<lparr>h_tasks := ts2, h_engine := e2\<rparr>"] b
    by (simp add: eq)
qed

lemma round_remaining_filter:
  assumes "refs_ok s" and "distinct (map task_id (h_tasks s))"
  shows "remainingTasks (hybrid_round clock invoke maxp s) =
           filter (\<lambda>r. r \<notin> set (next_batch maxp s)) (remainingTasks s)"
proof -
  obtain rs ts2 e2 where
    rb: "run_batch clock invoke (next_batch maxp s) (h_tasks s) (h_engine s) = (rs, ts2, e2)"
    and hr: "hybrid_round clock invoke maxp s =
           collect_batch (zip (next_batch maxp s) rs) (s\<lparr>h_tasks := ts2, h_engine := e2\<rparr>)"
    by (rule hybrid_round_unfold)
  note rbi = run_batch_ids [OF rb]
  have fst: "fst ` set (zip (next_batch maxp s) rs) = set (next_batch maxp s)"
    using rbi(3) by (metis map_fst_zip set_map)
  have len: "length ts2 = length (h_tasks s)"
    using rbi(1) by (auto dest: arg_cong [where f = length])
  have "remainingTasks (collect_batch (zip (next_batch maxp s) rs) (s\<lparr>h_tasks := ts2, h_engine := e2\<rparr>))
      = filter (\<lambda>r. r \<notin> fst ` set (zip (next_batch maxp s) rs))
          (remainingTasks (s\<lparr>h_tasks := ts2, h_engine := e2\<rparr>))"
    using assms next_batch_subset [of maxp s]
    by (intro collect_batch_remaining) (auto simp: refs_ok_def fst len rbi(1))
  then show ?thesis by (simp add: hr fst)
qed

subsection \<open>The hybrid loop\<close>

lemma hybrid_loop_steps:
  "hybrid_loop clock invoke maxp fuel s = Some r \<Longrightarrow> r = hybrid_steps clock invoke maxp fuel s"
  by (induction fuel arbitrary: s) (auto split: if_splits)

lemma init_refs_ok: "refs_ok (hybrid_init workflow e)"
  by (auto simp: refs_ok_def hybrid_init_def)

lemma steps_invariant:
  assumes "P s" and "\<And>s. P s \<Longrightarrow> \<not> hybrid_done s \<Longrightarrow> P (hybrid_round clock invoke maxp s)"
  shows "P (hybrid_steps clock invoke maxp n s)"
  using assms(1)
proof (induction n arbitrary: s)
  case 0
  then show ?case by simp
next
  case (Suc n)
  then show ?case using assms(2) by simp
qed

lemma steps_refs_ok: "refs_ok s \<Longrightarrow> refs_ok (hybrid_steps clock invoke maxp n s)"
  by (rule steps_invariant [where P = refs_ok]) (auto intro: round_refs_ok)

lemma steps_ids:
  "map task_id (h_tasks (hybrid_steps clock invoke maxp n s)) = map task_id (h_tasks s)"
  "map dependencies (h_tasks (hybrid_steps clock invoke maxp n s)) = map dependencies (h_tasks s)"
  "length (h_tasks (hybrid_steps clock invoke maxp n s)) = length (h_tasks s)"
proof -
  have "map task_id (h_tasks (hybrid_steps clock invoke maxp n s)) = map task_id (h_tasks s)
      \<and> map dependencies (h_tasks (hybrid_steps clock invoke maxp n s)) = map dependencies (h_tasks s)"
    by (rule steps_invariant [where P = "\<lambda>s'. map task_id (h_tasks s') = map task_id (h_tasks s)
         \<and> map dependencies (h_tasks s') = map dependencies (h_tasks s)"])
       (auto simp: round_ids)
  then show "map task_id (h_tasks (hybrid_steps clock invoke maxp n s)) = map task_id (h_tasks s)"
    and "map dependencies (h_tasks (hybrid_steps clock invoke maxp n s)) = map dependencies (h_tasks s)"
    by simp_all
  then show "length (h_tasks (hybrid_steps clock invoke maxp n s)) = length (h_tasks s)"
    by (auto dest: arg_cong [where f = length])
qed

lemma nth_same:
  "map f xs = map f ys \<Longrightarrow> i < length ys \<Longrightarrow> f (xs ! i) = f (ys ! i)"
  by (metis length_map nth_map)

lemma loop_terminates:
  "1 \<le> maxp \<Longrightarrow> length (remainingTasks s) \<le> fuel \<Longrightarrow>
   \<exists>r. hybrid_loop clock invoke maxp fuel s = Some r"
proof (induction fuel arbitrary: s)
  case 0
  then show ?case by (simp add: hybrid_done_def)
next
  case (Suc fuel)
  show ?case
  proof (cases "hybrid_done s")
    case True
    then show ?thesis by simp
  next
    case False
    then have "readyTasks s \<noteq> []" by (simp add: hybrid_done_def)
    with Suc.prems(1) have "next_batch maxp s \<noteq> []" by (rule next_batch_nonempty)
    from round_remaining_less [OF this, of clock invoke] Suc.prems(2)
    have "length (remainingTasks (hybrid_round clock invoke maxp s)) \<le> fuel" by simp
    from Suc.IH [OF Suc.prems(1) this] False show ?thesis by simp
  qed
qed

lemma loop_done: "hybrid_loop clock invoke maxp fuel s = Some r \<Longrightarrow> hybrid_done r"
  by (induction fuel arbitrary: s) (auto split: if_splits)

lemma count_decreases:
  assumes "length ys = length xs"
    and "\<And>j. j < length xs \<Longrightarrow> P (ys ! j) \<Longrightarrow> P (xs ! j)"
    and "i < length xs" and "P (xs ! i)" and "\<not> P (ys ! i)"
  shows "length (filter P ys) < length (filter P xs)"
proof -
  have "{j. j < length ys \<and> P (ys ! j)} \<subset> {j. j < length xs \<and> P (xs ! j)}"
    using assms by auto
  moreover have "finite {j. j < length xs \<and> P (xs ! j)}" by simp
  ultimately have "card {j. j < length ys \<and> P (ys ! j)} < card {j. j < length xs \<and> P (xs ! j)}"
    by (rule psubset_card_mono [rotated])
  then show ?thesis by (simp add: length_filter_conv_card)
qed

lemma round_fresh:
  assumes "fresh_state s"
  shows "fresh_state (hybrid_round clock invoke maxp s)"
proof -
  from assms have r: "refs_ok s" and d: "distinct (map task_id (h_tasks s))"
    and p: "\<forall>r\<in>set (remainingTasks s). status (h_tasks s ! r) = Pending"
    by (auto simp: fresh_state_def)
  have "status (h_tasks (hybrid_round clock invoke maxp s) ! x) = Pending"
    if "x \<in> set (remainingTasks (hybrid_round clock invoke maxp s))" for x
  proof -
    from that have "x \<in> set (remainingTasks s)" "x \<notin> set (next_batch maxp s)"
      by (auto simp: round_remaining_filter [OF r d])
    with p round_other [of x maxp s clock invoke] show ?thesis by simp
  qed
  with round_refs_ok [OF r] d show ?thesis
    by (auto simp: fresh_state_def round_ids)
qed

lemma round_non_terminal:
  assumes "fresh_state s" and "next_batch maxp s \<noteq> []"
  shows "non_terminal (h_tasks (hybrid_round clock invoke maxp s)) < non_terminal (h_tasks s)"
proof -
  from assms have r: "refs_ok s" and d: "distinct (map task_id (h_tasks s))"
    and p: "\<forall>r\<in>set (remainingTasks s). status (h_tasks s ! r) = Pending"
    by (auto simp: fresh_state_def)
  from assms(2) obtain i where i: "i \<in> set (next_batch maxp s)" by (cases "next_batch maxp s") auto
  with next_batch_subset [of maxp s] have ir: "i \<in> set (remainingTasks s)" by auto
  with r have il: "i < length (h_tasks s)" by (auto simp: refs_ok_def)
  from ir p have "\<not> terminal (status (h_tasks s ! i))" by (simp add: terminal_def)
  moreover from round_status [OF r i]
  have "terminal (status (h_tasks (hybrid_round clock invoke maxp s) ! i))" by (simp add: terminal_def)
  moreover have "\<not> terminal (status (h_tasks s ! j))"
    if "\<not> terminal (status (h_tasks (hybrid_round clock invoke maxp s) ! j))" for j
  proof (cases "j \<in> set (next_batch maxp s)")
    case True
    with round_status [OF r True] that show ?thesis by (simp add: terminal_def)
  next
    case False
    with round_other [OF False] that show ?thesis by simp
  qed
  ultimately show ?thesis
    unfolding non_terminal_def
    using il by (intro count_decreases [where i = i]) (auto simp: round_ids)
qed

lemma round_settled:
  assumes "settled_state s"
  shows "settled_state (hybrid_round clock invoke maxp s)"
proof -
  let ?s' = "hybrid_round clock invoke maxp s"
  from assms have r: "refs_ok s" and d: "distinct (map task_id (h_tasks s))"
    and c: "\<forall>d\<in>completedTasks s. \<exists>j<length (h_tasks s).
           task_id (h_tasks s ! j) = d \<and> terminal (status (h_tasks s ! j))
           \<and> j \<notin> set (remainingTasks s)"
    by (auto simp: settled_state_def)
  have len: "length (h_tasks ?s') = length (h_tasks s)" by (rule round_ids)
  have idsame: "task_id (h_tasks ?s' ! j) = task_id (h_tasks s ! j)" if "j < length (h_tasks s)" for j
    using nth_same [OF round_ids(1) that] .
  have "\<exists>j<length (h_tasks ?s'). task_id (h_tasks ?s' ! j) = x \<and> terminal (status (h_tasks ?s' ! j))
           \<and> j \<notin> set (remainingTasks ?s')"
    if "x \<in> completedTasks ?s'" for x
  proof -
    from that round_completed [OF r, of clock invoke maxp]
    consider "x \<in> completedTasks s" | i where "i \<in> set (next_batch maxp s)" "x = task_id (h_tasks s ! i)"
      by auto
    then show ?thesis
    proof cases
      case 1
      with c obtain j where j: "j < length (h_tasks s)" "task_id (h_tasks s ! j) = x"
        "terminal (status (h_tasks s ! j))" "j \<notin> set (remainingTasks s)" by blast
      from j(4) next_batch_subset [of maxp s] have nb: "j \<notin> set (next_batch maxp s)" by auto
      from j(4) round_remaining_subset [of clock invoke maxp s]
      have "j \<notin> set (remainingTasks ?s')" by auto
      with j round_other [OF nb, of clock invoke] idsame [OF j(1)] len show ?thesis by auto
    next
      case 2
      from 2(1) next_batch_subset [of maxp s] r have il: "i < length (h_tasks s)"
        by (auto simp: refs_ok_def)
      from 2(1) have "i \<notin> set (remainingTasks ?s')"
        by (simp add: round_remaining_filter [OF r d])
      with round_status [OF r 2(1), of clock invoke] idsame [OF il] il len 2(2) show ?thesis
        by (auto simp: terminal_def)
    qed
  qed
  with round_refs_ok [OF r] d show ?thesis
    by (auto simp: settled_state_def round_ids)
qed

lemma init_settled:
  "distinct (map task_id (tasks workflow)) \<Longrightarrow> settled_state (hybrid_init workflow e)"
  using init_refs_ok [of workflow e] by (simp add: settled_state_def) (simp add: hybrid_init_def)

lemma init_fresh:
  "distinct (map task_id (tasks workflow)) \<Longrightarrow> \<forall>t\<in>set (tasks workflow). status t = Pending \<Longrightarrow>
   fresh_state (hybrid_init workflow e)"
  using init_refs_ok [of workflow e] by (simp add: fresh_state_def) (simp add: hybrid_init_def)

subsection \<open>executeTask, and the order of a batch\<close>

lemma executeTask_outcome:
  "\<exists>r task1 e1. executeTask clock invoke task e = (Fulfilled r, task1, e1)
      \<and> success r =
          (case agents e (agentFor task) of
             None \<Rightarrow> False
           | Some agent \<Rightarrow>
               (case invoke (clock (Suc (ticks e))) (started clock e task) agent of
                  Returns v \<Rightarrow> True | Throws x \<Rightarrow> False))
      \<and> status task1 = (if success r then Completed else Failed)"
proof (cases "agents e (agentFor task)")
  case None
  then show ?thesis
    by (simp add: executeTask_def executeTask_begin_def Let_def)
next
  case (Some agent)
  show ?thesis
  proof (cases "invoke (clock (Suc (ticks e))) (started clock e task) agent")
    case (Returns v)
    with Some show ?thesis
      by (simp add: executeTask_def executeTask_begin_def executeTask_resume_def started_def Let_def)
  next
    case (Throws x)
    with Some show ?thesis
      by (simp add: executeTask_def executeTask_begin_def executeTask_resume_def started_def Let_def)
  qed
qed

lemma run_batch_fulfilled: "list_all is_fulfilled (fst (run_batch clock invoke batch ts e))"
proof -
  obtain rs ts2 e2 where rb: "run_batch clock invoke batch ts e = (rs, ts2, e2)"
    by (cases "run_batch clock invoke batch ts e") auto
  from run_batch_ids(4) [OF rb] show ?thesis
    by (auto simp: rb list_all_iff is_fulfilled_def)
qed


lemma sorted_remove_first: "sorted_wrt R xs \<Longrightarrow> sorted_wrt R (remove_first P xs)"
  using set_remove_first [of P] by (induction xs) auto

lemma collect_batch_sorted:
  "sorted_wrt R (remainingTasks s) \<Longrightarrow> sorted_wrt R (remainingTasks (collect_batch zs s))"
proof (induction zs arbitrary: s)
  case Nil
  then show ?case by simp
next
  case (Cons z rest)
  obtain i res where z: "z = (i, res)" by (cases z)
  have "sorted_wrt R (remainingTasks (collect_one i res s))"
    using Cons.prems by (simp add: collect_one_fields sorted_remove_first)
  from Cons.IH [OF this] show ?case
    unfolding z collect_batch_step .
qed

lemma round_sorted:
  assumes "sorted_wrt R (remainingTasks s)"
  shows "sorted_wrt R (remainingTasks (hybrid_round clock invoke maxp s))"
proof -
  obtain rs ts2 e2 where
    hr: "hybrid_round clock invoke maxp s =
           collect_batch (zip (next_batch maxp s) rs) (s\<lparr>h_tasks := ts2, h_engine := e2\<rparr>)"
    by (rule hybrid_round_unfold)
  show ?thesis unfolding hr using assms by (intro collect_batch_sorted) simp
qed

lemma steps_sorted:
  "sorted_wrt (<) (remainingTasks (hybrid_steps clock invoke maxp n (hybrid_init workflow e)))"
proof (rule steps_invariant [where P = "\<lambda>s. sorted_wrt (<) (remainingTasks s)"])
  show "sorted_wrt (<) (remainingTasks (hybrid_init workflow e))"
    by (simp add: hybrid_init_def)
next
  fix s :: hybrid_state
  assume "sorted_wrt (<) (remainingTasks s)"
  then show "sorted_wrt (<) (remainingTasks (hybrid_round clock invoke maxp s))"
    by (rule round_sorted)
qed


lemma readyTasks_priority:
  assumes "refs_ok s"
  shows "readyTasks (s\<lparr>h_tasks := map (\<lambda>t. t\<lparr>priority := f t\<rparr>) (h_tasks s)\<rparr>) = readyTasks s"
proof -
  have "dependencies (map (\<lambda>t. t\<lparr>priority := f t\<rparr>) (h_tasks s) ! r) = dependencies (h_tasks s ! r)"
    if "r \<in> set (remainingTasks s)" for r
  proof -
    from that assms have "r < length (h_tasks s)" by (auto simp: refs_ok_def)
    then show ?thesis by simp
  qed
  then show ?thesis unfolding readyTasks_def by (simp cong: filter_cong)
qed

subsection \<open>executeWorkflow\<close>

lemma run_sequential_returns:
  "\<exists>s1. run_sequential clock invoke retry refs s = Inr s1"
proof (induction refs arbitrary: s)
  case Nil
  then show ?case by simp
next
  case (Cons i refs)
  obtain r task1 e1 where
    x: "executeTask clock invoke (r_tasks s ! i) (r_engine s) = (Fulfilled r, task1, e1)"
    using executeTask_outcome [of clock invoke "r_tasks s ! i" "r_engine s"] by blast
  show ?case
    using Cons.IH by (cases retry) (auto simp: x Let_def)
qed

lemma run_synthesis_returns:
  "\<exists>s1. run_synthesis clock invoke workflowId workflow s = Inr s1
        \<and> r_tasks s1 = r_tasks s \<and> r_failed s1 = r_failed s \<and> r_completed s1 = r_completed s
        \<and> (length (r_results s) \<le> 1 \<longrightarrow> s1 = s)"
proof -
  obtain r task1 e1 where
    x: "executeTask clock invoke (synthesisTask workflowId (r_tasks s)) (r_engine s) = (Fulfilled r, task1, e1)"
    using executeTask_outcome [of clock invoke "synthesisTask workflowId (r_tasks s)" "r_engine s"] by blast
  show ?thesis by (simp add: run_synthesis_def x)
qed

lemma run_mode_returns:
  "run_mode clock invoke fuel workflow s = Some out \<Longrightarrow> \<exists>s1. out = Inr s1"
  using run_sequential_returns [of clock invoke "retryOnFailure (coordinationRules workflow)" "[0..<length (r_tasks s)]" s]
  by (cases "executionMode workflow") (auto simp: run_mode_def)

lemma finish_workflow_Inr:
  "finish_workflow clock workflowId workflow (Inr s) = (out, e1) \<Longrightarrow>
   \<exists>res. out = Inr res \<and> wr_success res = (r_failed s = 0) \<and> wr_results res = r_results s
     \<and> m_tasksFailed (wr_metrics res) = r_failed s \<and> m_tasksCompleted (wr_metrics res) = r_completed s
     \<and> workflows e1 workflowId =
          Some (workflow\<lparr>tasks := r_tasks s, wf_status := WorkflowCompleted,
                  wf_endTime := Some (clock (ticks (r_engine s)))\<rparr>)"
  by (auto simp: finish_workflow_def Let_def)

text \<open>What a run of executeWorkflow that ends has done.\<close>

lemma executeWorkflow_returns:
  assumes "workflows e workflowId = Some workflow"
    and "executeWorkflow clock invoke fuel workflowId e = Some (out, e1)"
  shows "\<exists>res workflow1 s1 s2.
           out = Inr res \<and> workflows e1 workflowId = Some workflow1
         \<and> wf_status workflow1 = WorkflowCompleted
         \<and> run_mode clock invoke fuel
              (workflow\<lparr>wf_status := Running, wf_startTime := Some (clock (ticks e))\<rparr>)
              \<lparr>r_tasks = tasks workflow, r_engine = e\<lparr>ticks := Suc (ticks e)\<rparr>, r_results = [],
                r_completed = 0, r_failed = 0\<rparr> = Some (Inr s1)
         \<and> run_synthesis clock invoke workflowId
              (workflow\<lparr>wf_status := Running, wf_startTime := Some (clock (ticks e))\<rparr>) s1 = Inr s2
         \<and> tasks workflow1 = r_tasks s1
         \<and> wr_results res = r_results s2
         \<and> wr_success res = (r_failed s1 = 0)
         \<and> m_tasksFailed (wr_metrics res) = r_failed s1
         \<and> m_tasksCompleted (wr_metrics res) = r_completed s1"
proof -
  let ?wf1 = "workflow\<lparr>wf_status := Running, wf_startTime := Some (clock (ticks e))\<rparr>"
  let ?s0 = "\<lparr>r_tasks = tasks workflow, r_engine = e\<lparr>ticks := Suc (ticks e)\<rparr>, r_results = [],
                r_completed = 0, r_failed = 0\<rparr>"
  from assms obtain body where b: "run_mode clock invoke fuel ?wf1 ?s0 = Some body"
    by (auto simp: executeWorkflow_def Let_def split: option.splits)
  from run_mode_returns [OF b] obtain s1 where s1: "body = Inr s1" by blast
  obtain s2 where s2: "run_synthesis clock invoke workflowId ?wf1 s1 = Inr s2"
    "r_tasks s2 = r_tasks s1" "r_failed s2 = r_failed s1" "r_completed s2 = r_completed s1"
    using run_synthesis_returns [of clock invoke workflowId ?wf1 s1] by blast
  from assms b s1 s2(1) have "finish_workflow clock workflowId ?wf1 (Inr s2) = (out, e1)"
    by (simp add: executeWorkflow_def Let_def)
  from finish_workflow_Inr [OF this] b s1 s2 show ?thesis by auto
qed

lemma run_mode_hybrid:
  assumes "executionMode workflow = Hybrid"
    and "run_mode clock invoke fuel workflow s = Some (Inr s1)"
  shows "\<exists>h. executeHybridWorkflow clock invoke fuel (workflow\<lparr>tasks := r_tasks s\<rparr>) (r_engine s) = Some h
       \<and> r_tasks s1 = h_tasks h \<and> r_results s1 = r_results s @ h_results h
       \<and> r_failed s1 = length (filter (\<lambda>t. status t = Failed) (h_tasks h))
       \<and> r_completed s1 = length (filter (\<lambda>t. status t = Completed) (h_tasks h))"
  using assms by (auto simp: run_mode_def run_hybrid_def)

lemma map_enumerate:
  "map f (enumerate 0 xs) = map (\<lambda>i. f (i, xs ! i)) [0..<length xs]"
  by (rule nth_equalityI) (simp_all add: nth_enumerate_eq)

lemma createWorkflow_tasks:
  "tasks (fst (createWorkflow clock rnd name descr ts mode e)) =
     map (\<lambda>i. (ts ! i)\<lparr>task_id := newTaskId (newWorkflowId (clock (ticks e)) rnd) i, status := Pending\<rparr>)
       [0..<length ts]"
  unfolding createWorkflow_def Let_def fst_conv map_enumerate by simp

lemma executeWorkflow_returnsE:
  assumes "workflows e workflowId = Some workflow"
    and "executeWorkflow clock invoke fuel workflowId e = Some (out, e1)"
  obtains res workflow1 s1 s2 where
    "out = Inr res" and "workflows e1 workflowId = Some workflow1"
    and "wf_status workflow1 = WorkflowCompleted"
    and "run_mode clock invoke fuel
              (workflow\<lparr>wf_status := Running, wf_startTime := Some (clock (ticks e))\<rparr>)
              \<lparr>r_tasks = tasks workflow, r_engine = e\<lparr>ticks := Suc (ticks e)\<rparr>, r_results = [],
                r_completed = 0, r_failed = 0\<rparr> = Some (Inr s1)"
    and "run_synthesis clock invoke workflowId
              (workflow\<lparr>wf_status := Running, wf_startTime := Some (clock (ticks e))\<rparr>) s1 = Inr s2"
    and "tasks workflow1 = r_tasks s1"
    and "wr_results res = r_results s2"
    and "wr_success res = (r_failed s1 = 0)"
    and "m_tasksFailed (wr_metrics res) = r_failed s1"
    and "m_tasksCompleted (wr_metrics res) = r_completed s1"
  using executeWorkflow_returns [OF assms] by (elim exE conjE) (rule that)

lemma createWorkflow_fields:
  "wf_status (fst (createWorkflow clock rnd name descr ts mode e)) = Initialized"
  "wf_id (fst (createWorkflow clock rnd name descr ts mode e)) = newWorkflowId (clock (ticks e)) rnd"
  "executionMode (fst (createWorkflow clock rnd name descr ts mode e)) = mode"
  "maxParallelTasks (coordinationRules (fst (createWorkflow clock rnd name descr ts mode e)))
     = (if mode = Parallel then int (length ts) else 3)"
  "workflows (snd (createWorkflow clock rnd name descr ts mode e)) (newWorkflowId (clock (ticks e)) rnd)
     = Some (fst (createWorkflow clock rnd name descr ts mode e))"
  "agents (snd (createWorkflow clock rnd name descr ts mode e)) = agents e"
  by (simp_all add: createWorkflow_def Let_def)

lemma createWorkflow_nth:
  assumes "i < length ts"
  shows "task_id (tasks (fst (createWorkflow clock rnd name descr ts mode e)) ! i)
           = newTaskId (newWorkflowId (clock (ticks e)) rnd) i"
    and "dependencies (tasks (fst (createWorkflow clock rnd name descr ts mode e)) ! i) = dependencies (ts ! i)"
    and "status (tasks (fst (createWorkflow clock rnd name descr ts mode e)) ! i) = Pending"
  using assms by (simp_all add: createWorkflow_tasks)

lemma createWorkflow_length:
  "length (tasks (fst (createWorkflow clock rnd name descr ts mode e))) = length ts"
  by (simp add: createWorkflow_tasks)

lemma unresolved_untouched:
  assumes "i < length (tasks workflow)"
    and "d \<in> set (dependencies (tasks workflow ! i))"
    and "d \<notin> set (map task_id (tasks workflow))"
  shows "h_tasks (hybrid_steps clock invoke maxp n (hybrid_init workflow e)) ! i = tasks workflow ! i"
proof -
  let ?P = "\<lambda>s. refs_ok s \<and> map task_id (h_tasks s) = map task_id (tasks workflow)
      \<and> completedTasks s \<subseteq> set (map task_id (tasks workflow))
      \<and> h_tasks s ! i = tasks workflow ! i"
  have "?P (hybrid_steps clock invoke maxp n (hybrid_init workflow e))"
  proof (rule steps_invariant [where P = ?P])
    show "?P (hybrid_init workflow e)"
      using init_refs_ok [of workflow e] by (simp add: hybrid_init_def)
  next
    fix s :: hybrid_state
    assume p: "?P s"
    then have r: "refs_ok s" and idm: "map task_id (h_tasks s) = map task_id (tasks workflow)"
      and sub: "completedTasks s \<subseteq> set (map task_id (tasks workflow))"
      and same: "h_tasks s ! i = tasks workflow ! i" by auto
    have "d \<notin> completedTasks s" using sub assms(3) by auto
    with assms(2) same have "i \<notin> set (readyTasks s)"
      by (auto simp: readyTasks_def list_all_iff)
    with next_batch_ready [of maxp s] have nb: "i \<notin> set (next_batch maxp s)" by auto
    have "task_id (h_tasks s ! j) \<in> set (map task_id (tasks workflow))"
      if "j \<in> set (next_batch maxp s)" for j
    proof -
      from that next_batch_subset [of maxp s] r have "j < length (h_tasks s)"
        by (auto simp: refs_ok_def)
      then have "task_id (h_tasks s ! j) \<in> set (map task_id (h_tasks s))"
        by (metis length_map nth_map nth_mem)
      with idm show ?thesis by simp
    qed
    with sub have "completedTasks (hybrid_round clock invoke maxp s) \<subseteq> set (map task_id (tasks workflow))"
      unfolding round_completed [OF r] by auto
    with round_refs_ok [OF r] round_ids(1) [of clock invoke maxp s] idm
      round_other [OF nb, of clock invoke] same
    show "?P (hybrid_round clock invoke maxp s)" by simp
  qed
  then show ?thesis by simp
qed

lemma createWorkflow_deps:
  "map dependencies (tasks (fst (createWorkflow clock rnd name descr ts mode e))) = map dependencies ts"
  by (rule nth_equalityI) (simp_all add: createWorkflow_tasks)

lemma hybrid_loop_done: "hybrid_done s \<Longrightarrow> hybrid_loop clock invoke maxp fuel s = Some s"
  by (cases fuel) simp_all

subsection \<open>The ids that createWorkflow gives\<close>

declare decimal_onto.simps [simp del]

lemma decimal_onto_append: "decimal_onto n acc = decimal_onto n [] @ acc"
proof (induction n arbitrary: acc rule: less_induct)
  case (less n)
  show ?case
  proof (cases "n < 10")
    case True
    then show ?thesis by (simp add: decimal_onto.simps [of n])
  next
    case False
    then have lt: "n div 10 < n" by simp
    from less.IH [OF lt, of "digit_char (n mod 10) # acc"] less.IH [OF lt, of "[digit_char (n mod 10)]"]
      False
    show ?thesis by (simp add: decimal_onto.simps [of n])
  qed
qed

lemma decimal_rec:
  "decimal n = (if n < 10 then [digit_char n] else decimal (n div 10) @ [digit_char (n mod 10)])"
  unfolding decimal_def
  using decimal_onto_append [of "n div 10" "[digit_char (n mod 10)]"]
  by (simp add: decimal_onto.simps [of n "[]"])

lemma decimal_nonempty: "decimal n \<noteq> []"
  by (subst decimal_rec) simp

lemma digit_char_inj:
  assumes "a < 10" and "b < 10" and "digit_char a = digit_char b"
  shows "a = b"
proof -
  have d: "distinct ''0123456789''" by simp
  have l: "length ''0123456789'' = 10" by simp
  from assms show ?thesis
    unfolding digit_char_def using nth_eq_iff_index_eq [OF d, of a b] l by simp
qed

lemma decimal_inj: "decimal n = decimal m \<Longrightarrow> n = m"
proof (induction n arbitrary: m rule: less_induct)
  case (less n)
  show ?case
  proof (cases "n < 10")
    case n: True
    show ?thesis
    proof (cases "m < 10")
      case True
      with n less.prems show ?thesis
        by (simp add: decimal_rec [of n] decimal_rec [of m] digit_char_inj)
    next
      case False
      with n less.prems decimal_nonempty [of "m div 10"] show ?thesis
        by (simp add: decimal_rec [of n] decimal_rec [of m] Cons_eq_append_conv)
    qed
  next
    case n: False
    show ?thesis
    proof (cases "m < 10")
      case True
      with n less.prems decimal_nonempty [of "n div 10"] show ?thesis
        by (simp add: decimal_rec [of n] decimal_rec [of m] append_eq_Cons_conv)
    next
      case False
      with n less.prems have e: "decimal (n div 10) = decimal (m div 10)"
        "digit_char (n mod 10) = digit_char (m mod 10)"
        by (simp_all add: decimal_rec [of n] decimal_rec [of m])
      from n have "n div 10 < n" by simp
      from less.IH [OF this e(1)] have q: "n div 10 = m div 10" .
      from e(2) have r: "n mod 10 = m mod 10" by (intro digit_char_inj) simp_all
      from q r show ?thesis by (metis div_mult_mod_eq)
    qed
  qed
qed

lemma newTaskId_inj: "newTaskId w i = newTaskId w j \<Longrightarrow> i = j"
  by (simp add: newTaskId_def decimal_inj)

lemma createWorkflow_ids:
  "map task_id (tasks (fst (createWorkflow clock rnd name descr ts mode e)))
     = map (newTaskId (newWorkflowId (clock (ticks e)) rnd)) [0..<length ts]"
  by (simp add: createWorkflow_tasks)

lemma createWorkflow_distinct:
  "distinct (map task_id (tasks (fst (createWorkflow clock rnd name descr ts mode e))))"
  unfolding createWorkflow_ids
  by (simp add: distinct_map inj_on_def) (blast dest: newTaskId_inj)

lemma createWorkflow_pending:
  "\<forall>t\<in>set (tasks (fst (createWorkflow clock rnd name descr ts mode e))). status t = Pending"
  by (simp add: createWorkflow_tasks)

text \<open>A workflow that createWorkflow builds for the hybrid mode meets the conditions of
  the theorems on hybrid runs.\<close>

lemma createWorkflow_hybrid_fresh:
  "1 \<le> maxParallelTasks (coordinationRules (fst (createWorkflow clock rnd name descr ts Hybrid e)))
   \<and> distinct (map task_id (tasks (fst (createWorkflow clock rnd name descr ts Hybrid e))))
   \<and> (\<forall>t\<in>set (tasks (fst (createWorkflow clock rnd name descr ts Hybrid e))). status t = Pending)"
  using createWorkflow_distinct [of clock rnd name descr ts Hybrid e]
    createWorkflow_pending [of clock rnd name descr ts Hybrid e]
  by (simp add: createWorkflow_fields)

subsection \<open>Tasks without dependencies are executed\<close>

lemma round_executed:
  assumes "executed_state s"
  shows "executed_state (hybrid_round clock invoke maxp s)"
proof -
  let ?s' = "hybrid_round clock invoke maxp s"
  from assms have r: "refs_ok s" and d: "distinct (map task_id (h_tasks s))"
    and x: "\<forall>j<length (h_tasks s). j \<in> set (remainingTasks s) \<or> terminal (status (h_tasks s ! j))"
    by (auto simp: executed_state_def)
  have "j \<in> set (remainingTasks ?s') \<or> terminal (status (h_tasks ?s' ! j))"
    if j: "j < length (h_tasks s)" for j
  proof (cases "j \<in> set (next_batch maxp s)")
    case True
    from round_status [OF r True, of clock invoke] show ?thesis by (simp add: terminal_def)
  next
    case False
    show ?thesis
    proof (cases "j \<in> set (remainingTasks s)")
      case True
      with False show ?thesis by (simp add: round_remaining_filter [OF r d])
    next
      case n: False
      with x j have "terminal (status (h_tasks s ! j))" by blast
      with round_other [OF False, of clock invoke] show ?thesis by simp
    qed
  qed
  with round_refs_ok [OF r] d show ?thesis
    by (simp add: executed_state_def round_ids)
qed

lemma init_executed:
  "distinct (map task_id (tasks workflow)) \<Longrightarrow> executed_state (hybrid_init workflow e)"
  using init_refs_ok [of workflow e] by (simp add: executed_state_def) (simp add: hybrid_init_def)

lemma free_task_executed:
  assumes "distinct (map task_id (tasks workflow))"
    and "hybrid_loop clock invoke maxp fuel (hybrid_init workflow e) = Some h"
    and "i < length (tasks workflow)" and "dependencies (tasks workflow ! i) = []"
  shows "terminal (status (h_tasks h ! i))"
proof -
  have h: "h = hybrid_steps clock invoke maxp fuel (hybrid_init workflow e)"
    using assms(2) by (rule hybrid_loop_steps)
  have ex: "executed_state h"
    unfolding h using init_executed [OF assms(1)] round_executed
    by (intro steps_invariant [where P = executed_state]) auto
  have len: "length (h_tasks h) = length (tasks workflow)"
    unfolding h by (simp add: steps_ids hybrid_init_def)
  have "map dependencies (h_tasks h) = map dependencies (tasks workflow)"
    unfolding h by (simp add: steps_ids hybrid_init_def)
  from nth_same [OF this assms(3)] assms(4) have dep: "dependencies (h_tasks h ! i) = []" by simp
  have "i \<notin> set (remainingTasks h)"
  proof
    assume "i \<in> set (remainingTasks h)"
    with dep have "i \<in> set (readyTasks h)" by (simp add: readyTasks_def)
    with loop_done [OF assms(2)] \<open>i \<in> set (remainingTasks h)\<close> show False
      by (auto simp: hybrid_done_def)
  qed
  with ex assms(3) len show ?thesis by (auto simp: executed_state_def)
qed

subsection \<open>The head of the next round\<close>

lemma hybrid_steps_Suc:
  "hybrid_steps clock invoke maxp (Suc n) s =
     (if hybrid_done (hybrid_steps clock invoke maxp n s) then hybrid_steps clock invoke maxp n s
      else hybrid_round clock invoke maxp (hybrid_steps clock invoke maxp n s))"
proof (induction n arbitrary: s)
  case 0
  then show ?case by simp
next
  case (Suc n)
  show ?case
  proof (cases "hybrid_done s")
    case True
    then show ?thesis by simp
  next
    case False
    have "hybrid_steps clock invoke maxp (Suc (Suc n)) s
        = hybrid_steps clock invoke maxp (Suc n) (hybrid_round clock invoke maxp s)"
      using False by (simp del: hybrid_steps.simps add: hybrid_steps.simps(2) [of _ _ _ "Suc n"])
    also note Suc.IH [of "hybrid_round clock invoke maxp s"]
    finally show ?thesis using False by simp
  qed
qed

subsection \<open>A width that leaves the batch empty\<close>

text \<open>
  \<open>createWorkflow\<close> sets the width of a hybrid workflow to three. With a width of zero (set
  on the workflow object after its creation) a round dispatches nothing and changes nothing,
  and the loop does not leave while a task is ready.
\<close>

lemma hybrid_round_empty: "next_batch maxp s = [] \<Longrightarrow> hybrid_round clock invoke maxp s = s"
  by (simp add: hybrid_round_def run_batch_def)

lemma hybrid_loop_empty_batch:
  "\<not> hybrid_done s \<Longrightarrow> next_batch maxp s = [] \<Longrightarrow> hybrid_loop clock invoke maxp fuel s = None"
  by (induction fuel) (simp_all add: hybrid_round_empty)

lemma next_batch_zero: "next_batch 0 s = []"
  by (simp add: next_batch_def slice0_def)

section \<open>The claims\<close>

subsection \<open>C7\<close>

text \<open>
  Claim C7. For the workflow \<^verbatim>\<open>{A: deps=[], B: deps=[], C: deps=[A,B]}\<close> with
  \<^verbatim>\<open>maxParallelWidth=2\<close> and every invocation succeeding (the repository's
  \<open>simulateTaskExecution\<close> on the agents of a new engine), the hybrid loop dispatches exactly
  A and B in its first round, at a moment when C is not ready; after that round A and B are
  completed and C is still pending; the second round dispatches exactly C; after it every
  task is completed and the loop leaves, two rounds in all; and \<open>executeWorkflow\<close> returns
  with success, three tasks completed, none failed, and the workflow status completed.
\<close>

theorem C7_scenario_ABC:
  "batch_ids 2 (hybrid_init workflow_ABC new_engine) = [''A'', ''B'']
   \<and> map status (h_tasks (hybrid_steps clock simulateTaskExecution 2 1
          (hybrid_init workflow_ABC new_engine))) = [Completed, Completed, Pending]
   \<and> batch_ids 2 (hybrid_steps clock simulateTaskExecution 2 1
          (hybrid_init workflow_ABC new_engine)) = [''C'']
   \<and> map_option (\<lambda>s. (map status (h_tasks s), remainingTasks s, length (h_results s)))
        (executeHybridWorkflow clock simulateTaskExecution 2 workflow_ABC new_engine)
        = Some ([Completed, Completed, Completed], [], 3)
   \<and> executeHybridWorkflow clock simulateTaskExecution 1 workflow_ABC new_engine = None
   \<and> map_option wf_status
        (stored (executeWorkflow clock simulateTaskExecution 2 ''w'' (engine_holding workflow_ABC)) ''w'')
        = Some WorkflowCompleted
   \<and> map_option (\<lambda>w. map status (tasks w))
        (stored (executeWorkflow clock simulateTaskExecution 2 ''w'' (engine_holding workflow_ABC)) ''w'')
        = Some [Completed, Completed, Completed]
   \<and> map_option (\<lambda>r. (wr_success r, m_tasksCompleted (wr_metrics r), m_tasksFailed (wr_metrics r)))
        (returned (executeWorkflow clock simulateTaskExecution 2 ''w'' (engine_holding workflow_ABC)))
        = Some (True, 3, 0)"
  by code_simp

subsection \<open>C5\<close>

text \<open>
  Claim C5. In hybrid execution a task never starts before each of its dependencies has
  reached a terminal status. Let \<open>s\<close> be the state at the head of the loop after any
  number of rounds of a workflow whose task ids are distinct. The state at the head of the
  next round is \<open>s\<close> itself when the loop leaves, and the outcome of one round on \<open>s\<close>
  otherwise. That round leaves every task outside its batch exactly as it is: only the tasks
  of the batch start. Every task \<open>i\<close> of the batch leaves \<open>Pending\<close> in that round, and each
  of its dependencies \<open>d\<close> is the id of a task \<open>j\<close> whose status in \<open>s\<close> is completed or
  failed; \<open>j\<close> is not in the batch, so the round leaves it as it is. Hence a task with a
  dependency that has no terminal status is not in the batch and does not start.
\<close>

theorem C5_dependencies_first:
  assumes "distinct (map task_id (tasks workflow))"
    and "s = hybrid_steps clock invoke maxp n (hybrid_init workflow e)"
  shows "hybrid_steps clock invoke maxp (Suc n) (hybrid_init workflow e)
           = (if hybrid_done s then s else hybrid_round clock invoke maxp s)
       \<and> (\<forall>k. k \<notin> set (next_batch maxp s) \<longrightarrow>
              h_tasks (hybrid_round clock invoke maxp s) ! k = h_tasks s ! k)
       \<and> (\<forall>i\<in>set (next_batch maxp s).
              status (h_tasks (hybrid_round clock invoke maxp s) ! i) \<noteq> Pending
            \<and> (\<forall>d\<in>set (dependencies (h_tasks s ! i)).
                  \<exists>j<length (h_tasks s). task_id (h_tasks s ! j) = d
                    \<and> terminal (status (h_tasks s ! j))
                    \<and> j \<notin> set (next_batch maxp s)
                    \<and> h_tasks (hybrid_round clock invoke maxp s) ! j = h_tasks s ! j))"
proof (intro conjI allI impI ballI)
  show "hybrid_steps clock invoke maxp (Suc n) (hybrid_init workflow e)
           = (if hybrid_done s then s else hybrid_round clock invoke maxp s)"
    unfolding assms(2) by (rule hybrid_steps_Suc)
next
  fix k assume "k \<notin> set (next_batch maxp s)"
  then show "h_tasks (hybrid_round clock invoke maxp s) ! k = h_tasks s ! k"
    by (rule round_other)
next
  have st: "settled_state s"
    unfolding assms(2)
    using init_settled [OF assms(1)] round_settled
    by (intro steps_invariant [where P = settled_state]) auto
  then have r: "refs_ok s" by (simp add: settled_state_def)
  fix i assume i: "i \<in> set (next_batch maxp s)"
  from round_status [OF r i, of clock invoke]
  show "status (h_tasks (hybrid_round clock invoke maxp s) ! i) \<noteq> Pending" by auto
  fix d assume d: "d \<in> set (dependencies (h_tasks s ! i))"
  from i next_batch_ready [of maxp s] have "i \<in> set (readyTasks s)" by auto
  with d have "d \<in> completedTasks s" by (auto simp: readyTasks_def list_all_iff)
  with st obtain j where j: "j < length (h_tasks s)" "task_id (h_tasks s ! j) = d"
    "terminal (status (h_tasks s ! j))" "j \<notin> set (remainingTasks s)"
    unfolding settled_state_def by blast
  from j(4) next_batch_subset [of maxp s] have nb: "j \<notin> set (next_batch maxp s)" by auto
  with j round_other [OF nb, of clock invoke]
  show "\<exists>j<length (h_tasks s). task_id (h_tasks s ! j) = d
                    \<and> terminal (status (h_tasks s ! j))
                    \<and> j \<notin> set (next_batch maxp s)
                    \<and> h_tasks (hybrid_round clock invoke maxp s) ! j = h_tasks s ! j"
    by blast
qed

theorem C5_dependencies_first_witness:
  "distinct (map task_id (tasks workflow_ABC))
   \<and> 2 \<in> set (next_batch 2 (hybrid_steps int simulateTaskExecution 2 1 (hybrid_init workflow_ABC new_engine)))
   \<and> ''A'' \<in> set (dependencies
         (h_tasks (hybrid_steps int simulateTaskExecution 2 1 (hybrid_init workflow_ABC new_engine)) ! 2))
   \<and> (\<exists>j<length (h_tasks (hybrid_steps int simulateTaskExecution 2 1 (hybrid_init workflow_ABC new_engine))).
         task_id (h_tasks (hybrid_steps int simulateTaskExecution 2 1 (hybrid_init workflow_ABC new_engine)) ! j) = ''A''
         \<and> terminal (status
               (h_tasks (hybrid_steps int simulateTaskExecution 2 1 (hybrid_init workflow_ABC new_engine)) ! j)))
   \<and> 2 \<notin> set (next_batch 2 (hybrid_steps int simulateTaskExecution 2 0 (hybrid_init workflow_ABC new_engine)))
   \<and> h_tasks (hybrid_round int simulateTaskExecution 2
         (hybrid_steps int simulateTaskExecution 2 0 (hybrid_init workflow_ABC new_engine))) ! 2
       = h_tasks (hybrid_steps int simulateTaskExecution 2 0 (hybrid_init workflow_ABC new_engine)) ! 2"
proof -
  let ?s = "hybrid_steps int simulateTaskExecution 2 1 (hybrid_init workflow_ABC new_engine)"
  let ?t = "hybrid_steps int simulateTaskExecution 2 0 (hybrid_init workflow_ABC new_engine)"
  have a: "distinct (map task_id (tasks workflow_ABC))" by code_simp
  have b: "2 \<in> set (next_batch 2 ?s)" by code_simp
  have c: "''A'' \<in> set (dependencies (h_tasks ?s ! 2))" by code_simp
  have d: "2 \<notin> set (next_batch 2 ?t)" by code_simp
  note one = C5_dependencies_first [OF a refl, where clock = int and invoke = simulateTaskExecution
      and maxp = 2 and n = 1 and e = new_engine]
  note zero = C5_dependencies_first [OF a refl, where clock = int and invoke = simulateTaskExecution
      and maxp = 2 and n = 0 and e = new_engine]
  from one b c have x: "\<exists>j<length (h_tasks ?s). task_id (h_tasks ?s ! j) = ''A''
      \<and> terminal (status (h_tasks ?s ! j))" by blast
  from zero d have y: "h_tasks (hybrid_round int simulateTaskExecution 2 ?t) ! 2 = h_tasks ?t ! 2"
    by blast
  from a b c x d y show ?thesis by (intro conjI)
qed

subsection \<open>C6\<close>

text \<open>
  Claim C6, as stated: for every workflow, every round that dispatches a batch strictly reduces
  the number of tasks without a terminal status, and the loop leaves after at most \<open>N\<close>
  rounds. It fails twice. A second call of \<open>executeWorkflow\<close> on a workflow whose two tasks
  the first call completed starts its loop with no task without a terminal status; the loop
  does not leave, its round dispatches both tasks again, and the number is zero before and
  after. And on a workflow object whose width has been set to zero the loop does not leave,
  whatever the fuel.
\<close>

theorem C6_counterexample:
  "map status (tasks rerun_workflow) = [Completed, Completed]
   \<and> map_option (\<lambda>w. map status (tasks w)) (workflows rerun_engine ''workflow-0-abc'')
       = Some [Completed, Completed]
   \<and> maxParallelTasks (coordinationRules rerun_workflow) = 3
   \<and> \<not> hybrid_done rerun_state
   \<and> next_batch 3 rerun_state = [0, 1]
   \<and> non_terminal (h_tasks rerun_state) = 0
   \<and> non_terminal (h_tasks (hybrid_round int simulateTaskExecution 3 rerun_state)) = 0
   \<and> \<not> non_terminal (h_tasks (hybrid_round int simulateTaskExecution 3 rerun_state))
         < non_terminal (h_tasks rerun_state)
   \<and> maxParallelTasks (coordinationRules workflow_width_zero) = 0
   \<and> \<not> hybrid_done (hybrid_init workflow_width_zero new_engine)
   \<and> (\<forall>fuel. executeHybridWorkflow int simulateTaskExecution fuel workflow_width_zero new_engine
         = None)"
proof -
  have first: "map status (tasks rerun_workflow) = [Completed, Completed]
   \<and> map_option (\<lambda>w. map status (tasks w)) (workflows rerun_engine ''workflow-0-abc'')
       = Some [Completed, Completed]
   \<and> maxParallelTasks (coordinationRules rerun_workflow) = 3
   \<and> \<not> hybrid_done rerun_state
   \<and> next_batch 3 rerun_state = [0, 1]
   \<and> non_terminal (h_tasks rerun_state) = 0
   \<and> non_terminal (h_tasks (hybrid_round int simulateTaskExecution 3 rerun_state)) = 0
   \<and> \<not> non_terminal (h_tasks (hybrid_round int simulateTaskExecution 3 rerun_state))
         < non_terminal (h_tasks rerun_state)"
    by code_simp
  have w: "maxParallelTasks (coordinationRules workflow_width_zero) = 0"
    by (simp add: workflow_width_zero_def)
  have nd: "\<not> hybrid_done (hybrid_init workflow_width_zero new_engine)" by code_simp
  have "executeHybridWorkflow int simulateTaskExecution fuel workflow_width_zero new_engine = None"
    for fuel
    unfolding executeHybridWorkflow_def w
    using nd next_batch_zero by (rule hybrid_loop_empty_batch)
  with first w nd show ?thesis by simp
qed

text \<open>
  Claim C6, amended. For every workflow of \<open>N\<close> tasks whose width is at least one (a hybrid
  workflow is created with the width three), the hybrid loop leaves after at most \<open>N\<close>
  rounds; and when the run starts with every task pending and the task ids distinct (the
  first run of a workflow as \<open>createWorkflow\<close> builds it), every round that dispatches a batch
  strictly reduces the number of tasks without a terminal status.
\<close>

theorem C6_hybrid_rounds:
  assumes "1 \<le> maxParallelTasks (coordinationRules workflow)"
  shows "(\<exists>r. executeHybridWorkflow clock invoke (length (tasks workflow)) workflow e = Some r)
       \<and> (distinct (map task_id (tasks workflow)) \<and> (\<forall>t\<in>set (tasks workflow). status t = Pending)
            \<longrightarrow>
            (\<forall>n. \<not> hybrid_done (hybrid_steps clock invoke (maxParallelTasks (coordinationRules workflow)) n
                 (hybrid_init workflow e)) \<longrightarrow>
             non_terminal (h_tasks (hybrid_round clock invoke (maxParallelTasks (coordinationRules workflow))
                 (hybrid_steps clock invoke (maxParallelTasks (coordinationRules workflow)) n
                   (hybrid_init workflow e))))
             < non_terminal (h_tasks (hybrid_steps clock invoke (maxParallelTasks (coordinationRules workflow)) n
                   (hybrid_init workflow e)))))"
proof -
  let ?maxp = "maxParallelTasks (coordinationRules workflow)"
  have "length (remainingTasks (hybrid_init workflow e)) \<le> length (tasks workflow)"
    by (simp add: hybrid_init_def)
  from loop_terminates [OF assms(1) this]
  have halts: "\<exists>r. executeHybridWorkflow clock invoke (length (tasks workflow)) workflow e = Some r"
    by (simp add: executeHybridWorkflow_def)
  have "non_terminal (h_tasks (hybrid_round clock invoke ?maxp (hybrid_steps clock invoke ?maxp n (hybrid_init workflow e))))
      < non_terminal (h_tasks (hybrid_steps clock invoke ?maxp n (hybrid_init workflow e)))"
    if nd: "\<not> hybrid_done (hybrid_steps clock invoke ?maxp n (hybrid_init workflow e))"
      and di: "distinct (map task_id (tasks workflow))"
      and pe: "\<forall>t\<in>set (tasks workflow). status t = Pending" for n
  proof -
    let ?s = "hybrid_steps clock invoke ?maxp n (hybrid_init workflow e)"
    have fs: "fresh_state ?s"
      using init_fresh [OF di pe] round_fresh
      by (intro steps_invariant [where P = fresh_state]) auto
    from nd have "readyTasks ?s \<noteq> []" by (simp add: hybrid_done_def)
    with assms(1) have "next_batch ?maxp ?s \<noteq> []" by (rule next_batch_nonempty)
    with fs show ?thesis by (rule round_non_terminal)
  qed
  with halts show ?thesis by blast
qed

theorem C6_hybrid_rounds_witness:
  "1 \<le> maxParallelTasks (coordinationRules workflow_ABC)
   \<and> distinct (map task_id (tasks workflow_ABC))
   \<and> list_all (\<lambda>t. status t = Pending) (tasks workflow_ABC)
   \<and> (\<exists>r. executeHybridWorkflow int simulateTaskExecution 3 workflow_ABC new_engine = Some r)
   \<and> \<not> hybrid_done (hybrid_steps int simulateTaskExecution 2 1 (hybrid_init workflow_ABC new_engine))
   \<and> non_terminal (h_tasks (hybrid_round int simulateTaskExecution 2
           (hybrid_steps int simulateTaskExecution 2 1 (hybrid_init workflow_ABC new_engine))))
       < non_terminal (h_tasks
           (hybrid_steps int simulateTaskExecution 2 1 (hybrid_init workflow_ABC new_engine)))"
proof -
  have a: "1 \<le> maxParallelTasks (coordinationRules workflow_ABC)" by code_simp
  have b: "distinct (map task_id (tasks workflow_ABC))" by code_simp
  have c: "\<forall>t\<in>set (tasks workflow_ABC). status t = Pending" by code_simp
  have m: "maxParallelTasks (coordinationRules workflow_ABC) = 2" by code_simp
  have n: "length (tasks workflow_ABC) = 3" by code_simp
  have d: "\<not> hybrid_done (hybrid_steps int simulateTaskExecution 2 1 (hybrid_init workflow_ABC new_engine))"
    by code_simp
  have c': "list_all (\<lambda>t. status t = Pending) (tasks workflow_ABC)"
    using c by (simp add: list_all_iff)
  note C6_hybrid_rounds [OF a, of int simulateTaskExecution new_engine, unfolded m n]
  with a b c c' d show ?thesis by blast
qed

subsection \<open>C10\<close>

text \<open>
  Claim C10. \<open>executeTask\<close> always resolves and never rejects: for every task, engine and
  invocation its promise is fulfilled with a record of \<open>success\<close>, result, agent and
  execution time, where \<open>success\<close> is false when no agent is registered under the task's
  agent id or when the invocation throws, and true otherwise (the task ends failed when
  \<open>success\<close> is false and completed when it is true). Hence every element of a settled batch is fulfilled, and
  in every round of the hybrid loop the id of every task of the batch, whatever its outcome,
  is added to \<^verbatim>\<open>completedTasks\<close>.
\<close>

theorem C10_executeTask_always_resolves:
  "(\<exists>r task1 e1. executeTask clock invoke task e = (Fulfilled r, task1, e1)
      \<and> success r =
          (case agents e (agentFor task) of
             None \<Rightarrow> False
           | Some agent \<Rightarrow>
               (case invoke (clock (Suc (ticks e))) (started clock e task) agent of
                  Returns v \<Rightarrow> True | Throws x \<Rightarrow> False))
      \<and> status task1 = (if success r then Completed else Failed))
   \<and> list_all is_fulfilled (fst (run_batch clock invoke batch ts e))
   \<and> completedTasks (hybrid_round clock invoke maxp
         (hybrid_steps clock invoke maxp n (hybrid_init workflow e0)))
       = completedTasks (hybrid_steps clock invoke maxp n (hybrid_init workflow e0))
         \<union> (\<lambda>i. task_id (h_tasks (hybrid_steps clock invoke maxp n (hybrid_init workflow e0)) ! i))
             ` set (next_batch maxp (hybrid_steps clock invoke maxp n (hybrid_init workflow e0)))"
proof (intro conjI)
  show "\<exists>r task1 e1. executeTask clock invoke task e = (Fulfilled r, task1, e1)
      \<and> success r =
          (case agents e (agentFor task) of
             None \<Rightarrow> False
           | Some agent \<Rightarrow>
               (case invoke (clock (Suc (ticks e))) (started clock e task) agent of
                  Returns v \<Rightarrow> True | Throws x \<Rightarrow> False))
      \<and> status task1 = (if success r then Completed else Failed)"
    by (rule executeTask_outcome)
  show "list_all is_fulfilled (fst (run_batch clock invoke batch ts e))"
    by (rule run_batch_fulfilled)
  have "refs_ok (hybrid_steps clock invoke maxp n (hybrid_init workflow e0))"
    by (intro steps_refs_ok init_refs_ok)
  then show "completedTasks (hybrid_round clock invoke maxp
         (hybrid_steps clock invoke maxp n (hybrid_init workflow e0)))
       = completedTasks (hybrid_steps clock invoke maxp n (hybrid_init workflow e0))
         \<union> (\<lambda>i. task_id (h_tasks (hybrid_steps clock invoke maxp n (hybrid_init workflow e0)) ! i))
             ` set (next_batch maxp (hybrid_steps clock invoke maxp n (hybrid_init workflow e0)))"
    by (rule round_completed)
qed

subsection \<open>C4\<close>

text \<open>
  Claim C4, as stated: the batch is chosen from the ready set by priority, highest first.
  It fails for two ready tasks of low and critical priority and a width of one: the batch is
  the low one, the first in insertion order.
\<close>

theorem C4_counterexample:
  "readyTasks (hybrid_init workflow_low_critical new_engine) = [0, 1]
   \<and> map (\<lambda>i. priority (h_tasks (hybrid_init workflow_low_critical new_engine) ! i))
       (readyTasks (hybrid_init workflow_low_critical new_engine)) = [Low, Critical]
   \<and> next_batch 1 (hybrid_init workflow_low_critical new_engine) = [0]
   \<and> \<not> spec_highest_first (h_tasks (hybrid_init workflow_low_critical new_engine))
         (readyTasks (hybrid_init workflow_low_critical new_engine))
         (next_batch 1 (hybrid_init workflow_low_critical new_engine))"
  by code_simp

text \<open>
  Claim C4, amended. For every state of a hybrid run and every width \<open>maxp \<ge> 0\<close>, the batch
  is the first \<open>maxp\<close> ready tasks (all of them when there are fewer), so it has at most
  \<open>maxp\<close> tasks; it is in insertion order (increasing position in \<^verbatim>\<open>workflow.tasks\<close>); and
  it does not depend on the priorities: changing the priority of every task leaves it the same.
\<close>

theorem C4_batch_is_prefix:
  assumes "0 \<le> maxp" and "s = hybrid_steps clock invoke width n (hybrid_init workflow e)"
  shows "next_batch maxp s = take (nat maxp) (readyTasks s)
       \<and> int (length (next_batch maxp s)) \<le> maxp
       \<and> sorted_wrt (<) (next_batch maxp s)
       \<and> next_batch maxp (s\<lparr>h_tasks := map (\<lambda>t. t\<lparr>priority := f t\<rparr>) (h_tasks s)\<rparr>) = next_batch maxp s"
proof -
  have r: "refs_ok s" unfolding assms(2) by (intro steps_refs_ok init_refs_ok)
  have nb: "next_batch maxp s = take (nat maxp) (readyTasks s)"
    using assms(1) by (simp add: next_batch_def slice0_def)
  have len: "int (length (next_batch maxp s)) \<le> maxp"
    using assms(1) by (simp add: nb)
  have "sorted_wrt (<) (remainingTasks s)" unfolding assms(2) by (rule steps_sorted)
  then have "sorted_wrt (<) (readyTasks s)" by (simp add: readyTasks_def sorted_wrt_filter)
  then have so: "sorted_wrt (<) (next_batch maxp s)" by (simp add: nb sorted_wrt_take)
  have pr: "next_batch maxp (s\<lparr>h_tasks := map (\<lambda>t. t\<lparr>priority := f t\<rparr>) (h_tasks s)\<rparr>) = next_batch maxp s"
    by (simp add: next_batch_def readyTasks_priority [OF r])
  from nb len so pr show ?thesis by (intro conjI)
qed

theorem C4_batch_is_prefix_witness:
  "(0::int) \<le> 1
   \<and> next_batch 1 (hybrid_steps int simulateTaskExecution 1 0 (hybrid_init workflow_low_critical new_engine))
       = take (nat 1) (readyTasks (hybrid_steps int simulateTaskExecution 1 0 (hybrid_init workflow_low_critical new_engine)))
   \<and> next_batch 1 (hybrid_steps int simulateTaskExecution 1 0 (hybrid_init workflow_low_critical new_engine)) = [0]"
proof -
  have a: "(0::int) \<le> 1" by simp
  have b: "next_batch 1 (hybrid_steps int simulateTaskExecution 1 0 (hybrid_init workflow_low_critical new_engine)) = [0]"
    by code_simp
  note c = C4_batch_is_prefix [OF a refl, of int simulateTaskExecution 1 0 workflow_low_critical new_engine]
  from c have "next_batch 1 (hybrid_steps int simulateTaskExecution 1 0 (hybrid_init workflow_low_critical new_engine))
       = take (nat 1) (readyTasks (hybrid_steps int simulateTaskExecution 1 0 (hybrid_init workflow_low_critical new_engine)))"
    by (rule conjunct1)
  with a b show ?thesis by (intro conjI)
qed

subsection \<open>C1\<close>

text \<open>
  Claim C1, as stated: the run of a two-task dependency cycle never ends with the workflow
  status completed. It fails: \<open>createWorkflow\<close> accepts two tasks that depend on each other
  by the ids they are given, and \<open>executeWorkflow\<close> ends with both tasks pending and the
  workflow status completed, reporting success; the same holds when the tasks name each other
  \<open>A\<close> and \<open>B\<close>, as the scenario writes them.
\<close>

theorem C1_counterexample:
  "map task_id (tasks (fst (created cycle_inputs))) = [''workflow-0-abc-task-0'', ''workflow-0-abc-task-1'']
   \<and> map dependencies (tasks (fst (created cycle_inputs)))
       = [[''workflow-0-abc-task-1''], [''workflow-0-abc-task-0'']]
   \<and> wf_status (fst (created cycle_inputs)) = Initialized
   \<and> map_option wf_status (stored (run_created cycle_inputs) ''workflow-0-abc'') = Some WorkflowCompleted
   \<and> map_option (\<lambda>w. map status (tasks w)) (stored (run_created cycle_inputs) ''workflow-0-abc'')
       = Some [Pending, Pending]
   \<and> map_option wr_success (returned (run_created cycle_inputs)) = Some True
   \<and> map dependencies (tasks (fst (created literal_cycle_inputs))) = [[''B''], [''A'']]
   \<and> map_option wf_status (stored (run_created literal_cycle_inputs) ''workflow-0-abc'')
       = Some WorkflowCompleted
   \<and> map_option (\<lambda>w. map status (tasks w)) (stored (run_created literal_cycle_inputs) ''workflow-0-abc'')
       = Some [Pending, Pending]"
  by code_simp

text \<open>
  Claim C1, amended. \<open>createWorkflow\<close> copies the dependencies of any task list and returns a
  workflow in status initialized: it rejects nothing. For a hybrid workflow of two pending
  tasks that depend on each other, the hybrid loop leaves at its first check without
  dispatching a task, and \<open>executeWorkflow\<close> returns, for every fuel, with no result, no task
  counted completed or failed, \<open>success\<close> true, both tasks as they were, and the workflow status
  completed.
\<close>

theorem C1_cycle_ends_completed:
  assumes "workflows e workflowId = Some workflow" and "executionMode workflow = Hybrid"
    and "tasks workflow = [a, b]"
    and "task_id b \<in> set (dependencies a)" and "task_id a \<in> set (dependencies b)"
    and "status a = Pending" and "status b = Pending"
  shows "map dependencies (tasks (fst (createWorkflow clock rnd name descr ts mode e0))) = map dependencies ts
       \<and> wf_status (fst (createWorkflow clock rnd name descr ts mode e0)) = Initialized
       \<and> executeHybridWorkflow clock invoke fuel workflow e = Some (hybrid_init workflow e)
       \<and> (\<exists>res e1 workflow1.
             executeWorkflow clock invoke fuel workflowId e = Some (Inr res, e1)
           \<and> wr_success res \<and> wr_results res = []
           \<and> m_tasksCompleted (wr_metrics res) = 0 \<and> m_tasksFailed (wr_metrics res) = 0
           \<and> workflows e1 workflowId = Some workflow1
           \<and> wf_status workflow1 = WorkflowCompleted \<and> tasks workflow1 = [a, b])"
proof -
  have ready: "readyTasks (hybrid_init w e') = []" if "tasks w = [a, b]" for w e'
    using that assms(4,5) by (auto simp: readyTasks_def hybrid_init_def nth_Cons' list_all_iff)
  have loop: "executeHybridWorkflow clock invoke fuel w e' = Some (hybrid_init w e')"
    if "tasks w = [a, b]" for w e'
    using ready [OF that] by (simp add: executeHybridWorkflow_def hybrid_loop_done hybrid_done_def)
  let ?wf1 = "workflow\<lparr>wf_status := Running, wf_startTime := Some (clock (ticks e))\<rparr>"
  let ?e1 = "e\<lparr>ticks := Suc (ticks e)\<rparr>"
  have l1: "executeHybridWorkflow clock invoke fuel (?wf1\<lparr>tasks := tasks workflow\<rparr>) ?e1
      = Some (hybrid_init (?wf1\<lparr>tasks := tasks workflow\<rparr>) ?e1)"
    by (rule loop) (simp add: assms(3))
  have run: "\<exists>res e1 workflow1.
             executeWorkflow clock invoke fuel workflowId e = Some (Inr res, e1)
           \<and> wr_success res \<and> wr_results res = []
           \<and> m_tasksCompleted (wr_metrics res) = 0 \<and> m_tasksFailed (wr_metrics res) = 0
           \<and> workflows e1 workflowId = Some workflow1
           \<and> wf_status workflow1 = WorkflowCompleted \<and> tasks workflow1 = [a, b]"
    using assms(1,2,3,6,7) l1
    by (simp add: executeWorkflow_def run_mode_def run_hybrid_def run_synthesis_def
        finish_workflow_def hybrid_init_def Let_def)
  from loop [OF assms(3)] run show ?thesis
    by (simp add: createWorkflow_deps createWorkflow_fields)
qed

theorem C1_cycle_ends_completed_witness:
  "workflows (snd (created cycle_inputs)) ''workflow-0-abc'' = Some (fst (created cycle_inputs))
   \<and> executionMode (fst (created cycle_inputs)) = Hybrid
   \<and> task_id (tasks (fst (created cycle_inputs)) ! 1)
       \<in> set (dependencies (tasks (fst (created cycle_inputs)) ! 0))
   \<and> task_id (tasks (fst (created cycle_inputs)) ! 0)
       \<in> set (dependencies (tasks (fst (created cycle_inputs)) ! 1))
   \<and> (\<exists>res e1 workflow1.
         executeWorkflow int simulateTaskExecution 2 ''workflow-0-abc'' (snd (created cycle_inputs))
           = Some (Inr res, e1)
       \<and> wr_success res \<and> wr_results res = []
       \<and> workflows e1 ''workflow-0-abc'' = Some workflow1
       \<and> wf_status workflow1 = WorkflowCompleted
       \<and> map status (tasks workflow1) = [Pending, Pending])"
proof -
  let ?w = "fst (created cycle_inputs)"
  have h1: "workflows (snd (created cycle_inputs)) ''workflow-0-abc'' = Some ?w" by code_simp
  have h2: "executionMode ?w = Hybrid" by code_simp
  have h3: "tasks ?w = [tasks ?w ! 0, tasks ?w ! 1]" by code_simp
  have h4: "task_id (tasks ?w ! 1) \<in> set (dependencies (tasks ?w ! 0))" by code_simp
  have h5: "task_id (tasks ?w ! 0) \<in> set (dependencies (tasks ?w ! 1))" by code_simp
  have h6: "status (tasks ?w ! 0) = Pending" by code_simp
  have h7: "status (tasks ?w ! 1) = Pending" by code_simp
  from C1_cycle_ends_completed [OF h1 h2 h3 h4 h5 h6 h7, where clock = int
      and invoke = simulateTaskExecution and fuel = 2]
  obtain res e1 workflow1 where
    r: "executeWorkflow int simulateTaskExecution 2 ''workflow-0-abc'' (snd (created cycle_inputs))
           = Some (Inr res, e1)"
      "wr_success res" "wr_results res = []" "workflows e1 ''workflow-0-abc'' = Some workflow1"
      "wf_status workflow1 = WorkflowCompleted" "tasks workflow1 = [tasks ?w ! 0, tasks ?w ! 1]"
    by blast
  from r(6) h6 h7 have st: "map status (tasks workflow1) = [Pending, Pending]" by simp
  have "\<exists>res e1 workflow1.
         executeWorkflow int simulateTaskExecution 2 ''workflow-0-abc'' (snd (created cycle_inputs))
           = Some (Inr res, e1)
       \<and> wr_success res \<and> wr_results res = []
       \<and> workflows e1 ''workflow-0-abc'' = Some workflow1
       \<and> wf_status workflow1 = WorkflowCompleted
       \<and> map status (tasks workflow1) = [Pending, Pending]"
    using r(1-5) st by (intro exI [of _ res] exI [of _ e1] exI [of _ workflow1] conjI)
  with h1 h2 h4 h5 show ?thesis by (intro conjI)
qed

subsection \<open>C2\<close>

text \<open>
  Claim C2, as stated: when the run ends the workflow status is completed if and only if every
  task is completed, and failed after a stall. It fails for a workflow whose first task fails
  (no agent is registered under its agent id) and whose second task waits for an id no task
  carries: the loop leaves with the second task remaining and not ready, the statuses are
  failed and pending, and the workflow status is completed.
\<close>

theorem C2_counterexample:
  "map_option wf_status
     (stored (executeWorkflow int simulateTaskExecution 2 ''w'' (engine_holding workflow_failed_stalled)) ''w'')
     = Some WorkflowCompleted
   \<and> map_option (\<lambda>w. map status (tasks w))
       (stored (executeWorkflow int simulateTaskExecution 2 ''w'' (engine_holding workflow_failed_stalled)) ''w'')
     = Some [Failed, Pending]
   \<and> map_option (\<lambda>s. (readyTasks s, remainingTasks s))
       (executeHybridWorkflow int simulateTaskExecution 2 workflow_failed_stalled new_engine)
     = Some ([], [1])"
  by code_simp

text \<open>
  Claim C2, amended. Whenever \<open>executeWorkflow\<close> ends on a workflow the engine holds, it
  returns normally and the workflow status is completed, whatever the statuses of the tasks;
  in hybrid mode the \<open>success\<close> it returns is true exactly when no task has the status failed.
\<close>

theorem C2_status_always_completed:
  assumes "workflows e workflowId = Some workflow"
    and "executeWorkflow clock invoke fuel workflowId e = Some (out, e1)"
  shows "\<exists>res workflow1. out = Inr res \<and> workflows e1 workflowId = Some workflow1
       \<and> wf_status workflow1 = WorkflowCompleted
       \<and> (executionMode workflow = Hybrid \<longrightarrow>
            wr_success res = (\<forall>t\<in>set (tasks workflow1). status t \<noteq> Failed))"
proof -
  from assms obtain res workflow1 s1 s2 where
    a: "out = Inr res" "workflows e1 workflowId = Some workflow1"
      "wf_status workflow1 = WorkflowCompleted"
      "run_mode clock invoke fuel
         (workflow\<lparr>wf_status := Running, wf_startTime := Some (clock (ticks e))\<rparr>)
         \<lparr>r_tasks = tasks workflow, r_engine = e\<lparr>ticks := Suc (ticks e)\<rparr>, r_results = [],
           r_completed = 0, r_failed = 0\<rparr> = Some (Inr s1)"
      "tasks workflow1 = r_tasks s1" "wr_success res = (r_failed s1 = 0)"
    by (rule executeWorkflow_returnsE)
  have "wr_success res = (\<forall>t\<in>set (tasks workflow1). status t \<noteq> Failed)"
    if "executionMode workflow = Hybrid"
  proof -
    from that have "executionMode (workflow\<lparr>wf_status := Running, wf_startTime := Some (clock (ticks e))\<rparr>) = Hybrid"
      by simp
    from run_mode_hybrid [OF this a(4)] a(5,6) show ?thesis
      by (auto simp: filter_empty_conv)
  qed
  with a(1-3) show ?thesis by blast
qed

theorem C2_status_always_completed_witness:
  "\<exists>out e1. executeWorkflow int simulateTaskExecution 2 ''w'' (engine_holding workflow_failed_stalled)
        = Some (out, e1)
     \<and> (\<exists>res workflow1. out = Inr res \<and> workflows e1 ''w'' = Some workflow1
           \<and> wf_status workflow1 = WorkflowCompleted \<and> \<not> wr_success res
           \<and> map status (tasks workflow1) = [Failed, Pending])"
proof -
  have h1: "workflows (engine_holding workflow_failed_stalled) ''w'' = Some workflow_failed_stalled"
    by (simp add: engine_holding_def workflow_failed_stalled_def scenario_workflow_def)
  have h2: "executionMode workflow_failed_stalled = Hybrid"
    by (simp add: workflow_failed_stalled_def scenario_workflow_def)
  have "map_option (\<lambda>w. map status (tasks w))
       (stored (executeWorkflow int simulateTaskExecution 2 ''w'' (engine_holding workflow_failed_stalled)) ''w'')
     = Some [Failed, Pending]"
    by code_simp
  then obtain out e1 w1 where
    x: "executeWorkflow int simulateTaskExecution 2 ''w'' (engine_holding workflow_failed_stalled) = Some (out, e1)"
      "workflows e1 ''w'' = Some w1" "map status (tasks w1) = [Failed, Pending]"
    by (auto simp: stored_def split: option.splits prod.splits)
  from C2_status_always_completed [OF h1 x(1)] x h2 show ?thesis by auto
qed

subsection \<open>C3\<close>

text \<open>
  Claim C3, as stated: when B depends on A and A ends failed, B never leaves pending and the
  run does not end completed. It fails: with A assigned to an agent that is not registered
  and B depending on A, A ends failed, B is executed and ends completed, and the workflow
  status is completed.
\<close>

theorem C3_counterexample:
  "map task_id (tasks (fst (created failing_inputs))) = [''workflow-0-abc-task-0'', ''workflow-0-abc-task-1'']
   \<and> map dependencies (tasks (fst (created failing_inputs))) = [[], [''workflow-0-abc-task-0'']]
   \<and> map_option (\<lambda>w. map status (tasks w)) (stored (run_created failing_inputs) ''workflow-0-abc'')
       = Some [Failed, Completed]
   \<and> map_option wf_status (stored (run_created failing_inputs) ''workflow-0-abc'') = Some WorkflowCompleted"
  by code_simp

text \<open>
  Claim C3, amended. When a hybrid run ends and a task has ended failed, \<open>executeWorkflow\<close>
  returns normally with \<open>success\<close> false and at least one task counted failed, and the
  workflow status is completed. (What becomes of a task that depends on the failed one is not
  part of the amended claim.)
\<close>

theorem C3_failure_reported_by_flag:
  assumes "workflows e workflowId = Some workflow"
    and "executionMode workflow = Hybrid"
    and "executeWorkflow clock invoke fuel workflowId e = Some (out, e1)"
    and "workflows e1 workflowId = Some workflow1"
    and "a \<in> set (tasks workflow1)" and "status a = Failed"
  shows "\<exists>res. out = Inr res \<and> \<not> wr_success res \<and> 0 < m_tasksFailed (wr_metrics res)
       \<and> wf_status workflow1 = WorkflowCompleted"
proof -
  from assms(1,3) obtain res workflow2 s1 s2 where
    b: "out = Inr res" "workflows e1 workflowId = Some workflow2"
      "wf_status workflow2 = WorkflowCompleted"
      "run_mode clock invoke fuel
         (workflow\<lparr>wf_status := Running, wf_startTime := Some (clock (ticks e))\<rparr>)
         \<lparr>r_tasks = tasks workflow, r_engine = e\<lparr>ticks := Suc (ticks e)\<rparr>, r_results = [],
           r_completed = 0, r_failed = 0\<rparr> = Some (Inr s1)"
      "tasks workflow2 = r_tasks s1" "wr_success res = (r_failed s1 = 0)"
      "m_tasksFailed (wr_metrics res) = r_failed s1"
    by (rule executeWorkflow_returnsE)
  from b(2) assms(4) have same: "workflow2 = workflow1" by simp
  note a = b(1) b(3) [unfolded same] b(4) b(5) [unfolded same] b(6) b(7)
  from assms(2) have "executionMode (workflow\<lparr>wf_status := Running, wf_startTime := Some (clock (ticks e))\<rparr>) = Hybrid"
    by simp
  from run_mode_hybrid [OF this a(3)] a(4)
  have "r_failed s1 = length (filter (\<lambda>t. status t = Failed) (tasks workflow1))" by auto
  moreover from assms(5,6) have "filter (\<lambda>t. status t = Failed) (tasks workflow1) \<noteq> []"
    by (auto simp: filter_empty_conv)
  ultimately have "0 < r_failed s1" by simp
  with a show ?thesis by simp
qed

theorem C3_failure_reported_by_flag_witness:
  "\<exists>out e1 workflow1 a.
       executeWorkflow int simulateTaskExecution 2 ''w'' (engine_holding workflow_failed_stalled) = Some (out, e1)
     \<and> workflows e1 ''w'' = Some workflow1 \<and> a \<in> set (tasks workflow1) \<and> status a = Failed
     \<and> (\<exists>res. out = Inr res \<and> \<not> wr_success res \<and> 0 < m_tasksFailed (wr_metrics res)
           \<and> wf_status workflow1 = WorkflowCompleted)"
proof -
  have h1: "workflows (engine_holding workflow_failed_stalled) ''w'' = Some workflow_failed_stalled"
    by (simp add: engine_holding_def workflow_failed_stalled_def scenario_workflow_def)
  have h2: "executionMode workflow_failed_stalled = Hybrid"
    by (simp add: workflow_failed_stalled_def scenario_workflow_def)
  have "map_option (\<lambda>w. map status (tasks w))
       (stored (executeWorkflow int simulateTaskExecution 2 ''w'' (engine_holding workflow_failed_stalled)) ''w'')
     = Some [Failed, Pending]"
    by code_simp
  then obtain out e1 w1 where
    x: "executeWorkflow int simulateTaskExecution 2 ''w'' (engine_holding workflow_failed_stalled) = Some (out, e1)"
      "workflows e1 ''w'' = Some w1" "map status (tasks w1) = [Failed, Pending]"
    by (auto simp: stored_def split: option.splits prod.splits)
  from x(3) obtain a where a: "a \<in> set (tasks w1)" "status a = Failed"
    by (cases "tasks w1") auto
  from C3_failure_reported_by_flag [OF h1 h2 x(1) x(2) a] x(1,2) a show ?thesis by blast
qed

subsection \<open>C8\<close>

text \<open>
  Claim C8, as stated: a task set with a dependency id that resolves to no task of the run
  makes the construction fail, and the run never starts. It fails: \<open>createWorkflow\<close> returns
  and stores the workflow, in status initialized, and \<open>executeWorkflow\<close> runs it (the task
  without dependencies is completed, the other stays pending, the workflow status is completed).
\<close>

theorem C8_counterexample:
  "map dependencies (tasks (fst (created dangling_inputs))) = [[], [''ghost'']]
   \<and> ''ghost'' \<notin> set (map task_id (tasks (fst (created dangling_inputs))))
   \<and> wf_status (fst (created dangling_inputs)) = Initialized
   \<and> workflows (snd (created dangling_inputs)) ''workflow-0-abc'' = Some (fst (created dangling_inputs))
   \<and> map_option (\<lambda>w. map status (tasks w)) (stored (run_created dangling_inputs) ''workflow-0-abc'')
       = Some [Completed, Pending]
   \<and> map_option wf_status (stored (run_created dangling_inputs) ''workflow-0-abc'') = Some WorkflowCompleted"
  by code_simp

text \<open>
  Claim C8, amended. For every task set \<open>createWorkflow\<close> returns a workflow in status
  initialized and stores it, also when a task \<open>i\<close> has a dependency id \<open>d\<close> that is the id of no
  task of the created workflow; the dependencies of that task are copied and it is pending;
  and in a hybrid run the task is never dispatched: in every state of the loop it is as it was
  created.
\<close>

theorem C8_no_validation:
  assumes "createWorkflow clock rnd name descr ts mode e0 = (workflow, e1)"
    and "i < length ts"
    and "d \<in> set (dependencies (ts ! i))"
    and "d \<notin> set (map task_id (tasks workflow))"
  shows "wf_status workflow = Initialized
       \<and> workflows e1 (wf_id workflow) = Some workflow
       \<and> dependencies (tasks workflow ! i) = dependencies (ts ! i)
       \<and> status (tasks workflow ! i) = Pending
       \<and> h_tasks (hybrid_steps clock invoke maxp n (hybrid_init workflow e)) ! i = tasks workflow ! i"
proof -
  from assms(1) have w: "workflow = fst (createWorkflow clock rnd name descr ts mode e0)"
    and e: "e1 = snd (createWorkflow clock rnd name descr ts mode e0)" by simp_all
  have il: "i < length (tasks workflow)" using assms(2) by (simp add: w createWorkflow_length)
  have dep: "dependencies (tasks workflow ! i) = dependencies (ts ! i)"
    using assms(2) by (simp add: w createWorkflow_nth)
  have pen: "status (tasks workflow ! i) = Pending"
    using assms(2) by (simp add: w createWorkflow_nth)
  from assms(3) dep have "d \<in> set (dependencies (tasks workflow ! i))" by simp
  from unresolved_untouched [OF il this assms(4)]
  have "h_tasks (hybrid_steps clock invoke maxp n (hybrid_init workflow e)) ! i = tasks workflow ! i" .
  with dep pen show ?thesis by (simp add: w e createWorkflow_fields)
qed

theorem C8_no_validation_witness:
  "1 < length dangling_inputs
   \<and> ''ghost'' \<in> set (dependencies (dangling_inputs ! 1))
   \<and> ''ghost'' \<notin> set (map task_id (tasks (fst (created dangling_inputs))))
   \<and> wf_status (fst (created dangling_inputs)) = Initialized
   \<and> workflows (snd (created dangling_inputs)) (wf_id (fst (created dangling_inputs)))
       = Some (fst (created dangling_inputs))
   \<and> h_tasks (hybrid_steps int simulateTaskExecution 3 2
         (hybrid_init (fst (created dangling_inputs)) (snd (created dangling_inputs)))) ! 1
       = tasks (fst (created dangling_inputs)) ! 1"
proof -
  have c: "createWorkflow int ''abc'' ''scenario'' ''scenario'' dangling_inputs Hybrid new_engine
      = (fst (created dangling_inputs), snd (created dangling_inputs))"
    by (simp add: created_def)
  have i: "1 < length dangling_inputs" by code_simp
  have d: "''ghost'' \<in> set (dependencies (dangling_inputs ! 1))" by code_simp
  have n: "''ghost'' \<notin> set (map task_id (tasks (fst (created dangling_inputs))))" by code_simp
  from C8_no_validation [OF c i d n, where invoke = simulateTaskExecution and maxp = 3 and n = 2
      and e = "snd (created dangling_inputs)"] i d n
  show ?thesis by simp
qed

subsection \<open>C9\<close>

text \<open>
  Claim C9. \<open>createWorkflow\<close> gives the task at position \<open>i\<close> the id
  \<^verbatim>\<open><workflowId>-task-<i>\<close> and copies its dependencies unchanged. The new workflow id is
  fresh (it is made of the time and a random suffix after the input tasks exist): no id of an
  input task begins with it. Then no dependency that names an input task by the id it had
  before the call is the id of a task of the created workflow; and when every dependency is
  such a name, the hybrid loop leaves within as many rounds as there are tasks, having executed
  every task without dependencies (each has a terminal status) and no other task (each is
  as it was created, pending).
\<close>

theorem C9_created_ids_break_dependencies:
  assumes "createWorkflow clock rnd name descr ts Hybrid e0 = (workflow, e1)"
    and "\<forall>t\<in>set ts. \<forall>suffix. task_id t \<noteq> wf_id workflow @ suffix"
    and "\<forall>t\<in>set ts. set (dependencies t) \<subseteq> task_id ` set ts"
  shows "(\<forall>i<length ts. task_id (tasks workflow ! i) = wf_id workflow @ ''-task-'' @ decimal i
            \<and> dependencies (tasks workflow ! i) = dependencies (ts ! i))
       \<and> (\<forall>t\<in>set ts. \<forall>d\<in>set (dependencies t). d \<notin> set (map task_id (tasks workflow)))
       \<and> (\<exists>h. executeHybridWorkflow clock invoke (length ts) workflow e = Some h
            \<and> (\<forall>i<length ts.
                  (dependencies (ts ! i) = [] \<longrightarrow> terminal (status (h_tasks h ! i)))
                \<and> (dependencies (ts ! i) \<noteq> [] \<longrightarrow>
                     h_tasks h ! i = tasks workflow ! i \<and> status (h_tasks h ! i) = Pending)))"
proof -
  from assms(1) have w: "workflow = fst (createWorkflow clock rnd name descr ts Hybrid e0)" by simp
  have wid: "wf_id workflow = newWorkflowId (clock (ticks e0)) rnd"
    by (simp add: w createWorkflow_fields)
  have len: "length (tasks workflow) = length ts" by (simp add: w createWorkflow_length)
  have a: "task_id (tasks workflow ! i) = wf_id workflow @ ''-task-'' @ decimal i
        \<and> dependencies (tasks workflow ! i) = dependencies (ts ! i)
        \<and> status (tasks workflow ! i) = Pending" if "i < length ts" for i
    using that by (simp add: w createWorkflow_nth createWorkflow_fields newTaskId_def)
  have b: "d \<notin> set (map task_id (tasks workflow))" if "t \<in> set ts" "d \<in> set (dependencies t)" for t d
  proof
    assume "d \<in> set (map task_id (tasks workflow))"
    then obtain i where i: "i < length ts" "d = task_id (tasks workflow ! i)"
      by (auto simp: in_set_conv_nth len)
    from that assms(3) obtain t' where t': "t' \<in> set ts" "d = task_id t'" by blast
    from i a [OF i(1)] t' assms(2) show False by auto
  qed
  have m: "1 \<le> maxParallelTasks (coordinationRules workflow)"
    and dist: "distinct (map task_id (tasks workflow))"
    using createWorkflow_hybrid_fresh [of clock rnd name descr ts e0] by (simp_all add: w)
  have "length (remainingTasks (hybrid_init workflow e)) \<le> length ts"
    by (simp add: hybrid_init_def len)
  from loop_terminates [OF m this] obtain h where
    h: "hybrid_loop clock invoke (maxParallelTasks (coordinationRules workflow)) (length ts)
          (hybrid_init workflow e) = Some h"
    by blast
  have c1: "terminal (status (h_tasks h ! i))" if "i < length ts" "dependencies (ts ! i) = []" for i
    using that a [OF that(1)] by (intro free_task_executed [OF dist h]) (simp_all add: len)
  have c2: "h_tasks h ! i = tasks workflow ! i \<and> status (h_tasks h ! i) = Pending"
    if "i < length ts" "dependencies (ts ! i) \<noteq> []" for i
  proof -
    from that(2) obtain d where d: "d \<in> set (dependencies (ts ! i))"
      by (cases "dependencies (ts ! i)") auto
    with that(1) have nd: "d \<notin> set (map task_id (tasks workflow))" by (intro b [of "ts ! i"]) simp_all
    from d a [OF that(1)] have dd: "d \<in> set (dependencies (tasks workflow ! i))" by simp
    from that(1) have il: "i < length (tasks workflow)" by (simp add: len)
    have "h = hybrid_steps clock invoke (maxParallelTasks (coordinationRules workflow)) (length ts)
          (hybrid_init workflow e)"
      using h by (rule hybrid_loop_steps)
    with unresolved_untouched [OF il dd nd] a [OF that(1)] show ?thesis by simp
  qed
  have "\<exists>h. executeHybridWorkflow clock invoke (length ts) workflow e = Some h
            \<and> (\<forall>i<length ts.
                  (dependencies (ts ! i) = [] \<longrightarrow> terminal (status (h_tasks h ! i)))
                \<and> (dependencies (ts ! i) \<noteq> [] \<longrightarrow>
                     h_tasks h ! i = tasks workflow ! i \<and> status (h_tasks h ! i) = Pending))"
  proof (intro exI [of _ h] conjI allI impI)
    show "executeHybridWorkflow clock invoke (length ts) workflow e = Some h"
      using h by (simp add: executeHybridWorkflow_def)
  next
    fix i assume "i < length ts" "dependencies (ts ! i) = []"
    then show "terminal (status (h_tasks h ! i))" by (rule c1)
  next
    fix i assume "i < length ts" "dependencies (ts ! i) \<noteq> []"
    from c2 [OF this] show "h_tasks h ! i = tasks workflow ! i" by (rule conjunct1)
  next
    fix i assume "i < length ts" "dependencies (ts ! i) \<noteq> []"
    from c2 [OF this] show "status (h_tasks h ! i) = Pending" by (rule conjunct2)
  qed
  with a b show ?thesis by blast
qed

theorem C9_created_ids_break_dependencies_witness:
  "wf_id (fst (created decomposed_inputs)) = ''workflow-0-abc''
   \<and> map task_id decomposed_inputs = [''task-1-analysis'', ''task-1-generate'']
   \<and> map dependencies decomposed_inputs = [[], [''task-1-analysis'']]
   \<and> ''task-1-analysis'' \<notin> set (map task_id (tasks (fst (created decomposed_inputs))))
   \<and> (\<exists>h. executeHybridWorkflow int simulateTaskExecution 2 (fst (created decomposed_inputs))
             (snd (created decomposed_inputs)) = Some h
         \<and> terminal (status (h_tasks h ! 0))
         \<and> status (h_tasks h ! 1) = Pending)"
proof -
  let ?w = "fst (created decomposed_inputs)"
  have h1: "createWorkflow int ''abc'' ''scenario'' ''scenario'' decomposed_inputs Hybrid new_engine
      = (?w, snd (created decomposed_inputs))"
    by (simp add: created_def)
  have wid: "wf_id ?w = ''workflow-0-abc''" by code_simp
  have ids: "map task_id decomposed_inputs = [''task-1-analysis'', ''task-1-generate'']" by code_simp
  have deps: "map dependencies decomposed_inputs = [[], [''task-1-analysis'']]" by code_simp
  have h2: "\<forall>t\<in>set decomposed_inputs. \<forall>suffix. task_id t \<noteq> wf_id ?w @ suffix"
    unfolding wid by (simp add: decomposed_inputs_def scenario_task_def)
  have h3: "\<forall>t\<in>set decomposed_inputs. set (dependencies t) \<subseteq> task_id ` set decomposed_inputs"
    by (simp add: decomposed_inputs_def scenario_task_def)
  have len: "length decomposed_inputs = 2" by (simp add: decomposed_inputs_def)
  have d0: "dependencies (decomposed_inputs ! 0) = []"
    and d1: "dependencies (decomposed_inputs ! 1) = [''task-1-analysis'']"
    by (simp_all add: decomposed_inputs_def scenario_task_def)
  have m: "decomposed_inputs ! 1 \<in> set decomposed_inputs" by (simp add: decomposed_inputs_def)
  note T = C9_created_ids_break_dependencies [OF h1 h2 h3, where invoke = simulateTaskExecution
      and e = "snd (created decomposed_inputs)"]
  from T m d1 have b: "''task-1-analysis'' \<notin> set (map task_id (tasks ?w))" by force
  from T obtain h where
    h: "executeHybridWorkflow int simulateTaskExecution (length decomposed_inputs) ?w
          (snd (created decomposed_inputs)) = Some h"
      "\<forall>i<length decomposed_inputs.
          (dependencies (decomposed_inputs ! i) = [] \<longrightarrow> terminal (status (h_tasks h ! i)))
        \<and> (dependencies (decomposed_inputs ! i) \<noteq> [] \<longrightarrow>
             h_tasks h ! i = tasks ?w ! i \<and> status (h_tasks h ! i) = Pending)"
    by blast
  have "terminal (status (h_tasks h ! 0))"
  proof -
    have zero: "(0::nat) < length decomposed_inputs" by (simp add: len)
    from h(2) zero have "dependencies (decomposed_inputs ! 0) = [] \<longrightarrow>
        terminal (status (h_tasks h ! 0))" by blast
    with d0 show ?thesis by blast
  qed
  moreover have "status (h_tasks h ! 1) = Pending"
  proof -
    have one: "(1::nat) < length decomposed_inputs" by (simp add: len)
    have ne: "dependencies (decomposed_inputs ! 1) \<noteq> []" unfolding d1 by simp
    from h(2) one have "dependencies (decomposed_inputs ! 1) \<noteq> [] \<longrightarrow>
        h_tasks h ! 1 = tasks ?w ! 1 \<and> status (h_tasks h ! 1) = Pending" by blast
    with ne show ?thesis by blast
  qed
  ultimately have "terminal (status (h_tasks h ! 0))" "status (h_tasks h ! 1) = Pending" .
  with h(1) len have "\<exists>h. executeHybridWorkflow int simulateTaskExecution 2 ?w
             (snd (created decomposed_inputs)) = Some h
         \<and> terminal (status (h_tasks h ! 0))
         \<and> status (h_tasks h ! 1) = Pending"
    by (intro exI [of _ h]) simp
  with wid ids deps b show ?thesis by (intro conjI)
qed

end
